theory Spec2Isabelle
  imports Complex_Main "HOL-Library.AList"
begin

section \<open>JavaScript numbers\<close>

text \<open>
  A JavaScript number is a double: a finite value, an infinity or NaN. The finite values
  are modelled as rationals. An operation whose exact result reaches \<open>2^1024\<close> in size
  overflows to an infinity, and the IEEE rules for the infinities and NaN apply; the
  rounding of a finite result to 53 bits and the sign of zero are not modelled.
\<close>

datatype jsnum = Num rat | PosInfinity | NegInfinity | NaN

definition double_limit :: rat where
  "double_limit = 2 ^ 1024"

definition overflow :: "rat \<Rightarrow> jsnum" where
  "overflow x =
     (if double_limit \<le> x then PosInfinity
      else if x \<le> - double_limit then NegInfinity else Num x)"

fun js_mul :: "jsnum \<Rightarrow> jsnum \<Rightarrow> jsnum" where
  "js_mul NaN _ = NaN"
| "js_mul _ NaN = NaN"
| "js_mul (Num x) (Num y) = overflow (x * y)"
| "js_mul (Num x) PosInfinity = (if x = 0 then NaN else if 0 < x then PosInfinity else NegInfinity)"
| "js_mul (Num x) NegInfinity = (if x = 0 then NaN else if 0 < x then NegInfinity else PosInfinity)"
| "js_mul PosInfinity (Num y) = (if y = 0 then NaN else if 0 < y then PosInfinity else NegInfinity)"
| "js_mul NegInfinity (Num y) = (if y = 0 then NaN else if 0 < y then NegInfinity else PosInfinity)"
| "js_mul PosInfinity PosInfinity = PosInfinity"
| "js_mul PosInfinity NegInfinity = NegInfinity"
| "js_mul NegInfinity PosInfinity = NegInfinity"
| "js_mul NegInfinity NegInfinity = PosInfinity"

fun js_add :: "jsnum \<Rightarrow> jsnum \<Rightarrow> jsnum" where
  "js_add NaN _ = NaN"
| "js_add _ NaN = NaN"
| "js_add (Num x) (Num y) = overflow (x + y)"
| "js_add PosInfinity NegInfinity = NaN"
| "js_add NegInfinity PosInfinity = NaN"
| "js_add PosInfinity _ = PosInfinity"
| "js_add NegInfinity _ = NegInfinity"
| "js_add (Num x) y = y"

fun js_neg :: "jsnum \<Rightarrow> jsnum" where
  "js_neg (Num x) = Num (- x)"
| "js_neg PosInfinity = NegInfinity"
| "js_neg NegInfinity = PosInfinity"
| "js_neg NaN = NaN"

definition js_sub :: "jsnum \<Rightarrow> jsnum \<Rightarrow> jsnum" where
  "js_sub x y = js_add x (js_neg y)"

text \<open>\<open>Math.min\<close> of two numbers: NaN when one of them is.\<close>

fun js_min :: "jsnum \<Rightarrow> jsnum \<Rightarrow> jsnum" where
  "js_min NaN _ = NaN"
| "js_min _ NaN = NaN"
| "js_min NegInfinity _ = NegInfinity"
| "js_min _ NegInfinity = NegInfinity"
| "js_min PosInfinity y = y"
| "js_min x PosInfinity = x"
| "js_min (Num x) (Num y) = Num (min x y)"

text \<open>\<open>Math.round\<close>: the nearest integer, halves rounded towards plus infinity.\<close>

fun js_round :: "jsnum \<Rightarrow> jsnum" where
  "js_round (Num x) = Num (of_int \<lfloor>x + 1 / 2\<rfloor>)"
| "js_round x = x"

text \<open>\<open>Math.pow(2, n)\<close> for a natural number \<open>n\<close>: the largest finite power is \<open>2^1023\<close>.\<close>

definition js_pow2 :: "nat \<Rightarrow> jsnum" where
  "js_pow2 n = (if 1024 \<le> n then PosInfinity else Num (2 ^ n))"

text \<open>The quotient of two integers: an infinity or NaN when the divisor is zero.\<close>

definition js_div :: "int \<Rightarrow> int \<Rightarrow> jsnum" where
  "js_div a b =
     (if b = 0 then (if a = 0 then NaN else if 0 < a then PosInfinity else NegInfinity)
      else Num (of_int a / of_int b))"

fun js_lt :: "jsnum \<Rightarrow> jsnum \<Rightarrow> bool" where
  "js_lt NaN _ = False"
| "js_lt _ NaN = False"
| "js_lt (Num x) (Num y) = (x < y)"
| "js_lt (Num x) PosInfinity = True"
| "js_lt (Num x) NegInfinity = False"
| "js_lt PosInfinity _ = False"
| "js_lt NegInfinity NegInfinity = False"
| "js_lt NegInfinity _ = True"

section \<open>Exponential backoff (task-router.ts, class ExponentialBackoff)\<close>

text \<open>\<open>Math.random()\<close> is the parameter \<open>u\<close>, the attempt is a natural number.\<close>

record ExponentialBackoff =
  baseDelayMs :: jsnum
  maxDelayMs :: jsnum
  jitter :: jsnum
  maxAttempts :: nat
  attempt :: nat

definition calculateDelay :: "ExponentialBackoff \<Rightarrow> rat \<Rightarrow> nat \<Rightarrow> jsnum" where
  "calculateDelay b u n =
     (let exponentialDelay = js_mul (baseDelayMs b) (js_pow2 n);
          cappedDelay = js_min exponentialDelay (maxDelayMs b);
          jitterRange = js_mul cappedDelay (jitter b);
          jitterOffset = js_mul (js_sub (js_mul (Num u) (Num 2)) (Num 1)) jitterRange
      in js_round (js_add cappedDelay jitterOffset))"

text \<open>\<open>next()\<close>: the delay of the current attempt, or null once the attempts are used up.\<close>

definition backoff_next :: "ExponentialBackoff \<Rightarrow> rat \<Rightarrow> jsnum option \<times> ExponentialBackoff" where
  "backoff_next b u =
     (if attempt b \<ge> maxAttempts b then (None, b)
      else (Some (calculateDelay b u (attempt b)), b\<lparr>attempt := attempt b + 1\<rparr>))"

lemma js_mul_NaN [simp]: "js_mul x NaN = NaN"
  by (cases x) simp_all

lemma js_add_NaN [simp]: "js_add x NaN = NaN"
  by (cases x) simp_all

lemma double_limit_ge_2: "2 \<le> double_limit"
  unfolding double_limit_def using power_increasing [of 1 1024 "2::rat"] by simp

lemma double_limit_le_power: "1024 \<le> n \<Longrightarrow> double_limit \<le> 2 ^ n"
  unfolding double_limit_def by (intro power_increasing) simp_all

lemma overflow_nonneg: "0 \<le> x \<Longrightarrow> x < double_limit \<Longrightarrow> overflow x = Num x"
  using double_limit_ge_2 by (simp add: overflow_def)

lemma overflow_large: "double_limit \<le> x \<Longrightarrow> overflow x = PosInfinity"
  by (simp add: overflow_def)

lemma js_round_of_int: "js_round (Num (of_int k)) = Num (of_int k)"
proof -
  have "\<lfloor>(of_int k :: rat) + 1 / 2\<rfloor> = k"
    by (rule floor_unique) simp_all
  then show ?thesis by simp
qed

lemma capped_exponential:
  assumes b0: "0 \<le> base" and mfin: "of_int mx < double_limit"
    and dom: "0 < base \<or> n < 1024"
  shows "js_min (js_mul (Num (of_int base)) (js_pow2 n)) (Num (of_int mx))
           = Num (of_int (min mx (base * 2 ^ n)))"
proof -
  let ?x = "of_int base * 2 ^ n :: rat"
  have x: "?x = of_int (base * 2 ^ n)" by simp
  have x0: "0 \<le> ?x" using b0 by simp
  have large: "js_min PosInfinity (Num (of_int mx)) = Num (of_int (min mx (base * 2 ^ n)))"
    if "double_limit \<le> ?x"
  proof -
    from that mfin have "(of_int mx :: rat) < of_int (base * 2 ^ n)"
      unfolding x by linarith
    then have "mx < base * 2 ^ n" by (simp only: of_int_less_iff)
    then show ?thesis by (simp add: min_def)
  qed
  show ?thesis
  proof (cases "1024 \<le> n")
    case True
    with dom have pos: "0 < base" by simp
    then have "1 \<le> (of_int base :: rat)" by simp
    then have "(2::rat) ^ n \<le> ?x"
      by (simp add: mult_le_cancel_right1)
    with double_limit_le_power [OF True] have "double_limit \<le> ?x" by linarith
    from large [OF this] show ?thesis
      using True pos by (simp add: js_pow2_def)
  next
    case False
    then have e: "js_mul (Num (of_int base)) (js_pow2 n) = overflow ?x"
      by (simp add: js_pow2_def)
    show ?thesis
    proof (cases "double_limit \<le> ?x")
      case True
      from large [OF True] show ?thesis
        by (simp only: e overflow_large [OF True])
    next
      case False
      then have "overflow ?x = Num ?x"
        using x0 by (intro overflow_nonneg) simp_all
      then have "js_min (js_mul (Num (of_int base)) (js_pow2 n)) (Num (of_int mx))
          = Num (min (of_int (base * 2 ^ n)) (of_int mx))"
        by (simp only: e x js_min.simps)
      then show ?thesis by (simp only: of_int_min min.commute)
    qed
  qed
qed

definition zero_base_backoff :: ExponentialBackoff where
  "zero_base_backoff = \<lparr>baseDelayMs = Num 0, maxDelayMs = Num 30000, jitter = Num 0,
     maxAttempts = 5, attempt = 0\<rparr>"

definition plain_backoff :: ExponentialBackoff where
  "plain_backoff = \<lparr>baseDelayMs = Num 1000, maxDelayMs = Num 30000, jitter = Num 0,
     maxAttempts = 5, attempt = 0\<rparr>"

text \<open>
  C8, as stated, fails: with a base delay of 0 and \<open>jitter = 0\<close>, at attempt 1024
  \<open>Math.pow(2, attempt)\<close> is Infinity and \<open>0 * Infinity\<close> is NaN, which \<open>Math.min\<close>, the
  jitter term and \<open>Math.round\<close> pass on: \<open>calculateDelay(1024)\<close> is NaN and not
  \<open>min(maxDelayMs, 0 * 2^1024) = 0\<close>.
\<close>

theorem calculateDelay_zero_base:
  "calculateDelay zero_base_backoff (1 / 2) 1024 = NaN \<and>
   calculateDelay zero_base_backoff (1 / 2) 1024 \<noteq> Num (of_int (min 30000 (0 * 2 ^ 1024)))"
  by (simp add: calculateDelay_def zero_base_backoff_def js_pow2_def Let_def)

text \<open>
  C8, amended. For every attempt \<open>n \<ge> 0\<close> and every configuration with \<open>jitter = 0\<close>, a
  non-negative integer \<open>baseDelayMs\<close> and a non-negative integer \<open>maxDelayMs\<close> (a number, so
  below \<open>2^1024\<close>), \<open>calculateDelay(n)\<close> returns exactly \<open>min(maxDelayMs, baseDelayMs * 2^n)\<close>,
  whatever \<open>Math.random()\<close> draws in \<open>[0, 1)\<close>, provided \<open>baseDelayMs > 0\<close> or \<open>n < 1024\<close>.
\<close>

theorem calculateDelay_deterministic:
  assumes j: "jitter b = Num 0" and bs: "baseDelayMs b = Num (of_int base)"
    and mx: "maxDelayMs b = Num (of_int mx)"
    and b0: "0 \<le> base" and m0: "0 \<le> mx" and mfin: "of_int mx < double_limit"
    and u: "0 \<le> u" "u < 1"
    and dom: "0 < base \<or> n < 1024"
  shows "calculateDelay b u n = Num (of_int (min mx (base * 2 ^ n)))"
proof -
  let ?c = "min mx (base * 2 ^ n)"
  note big = double_limit_ge_2
  have z: "overflow 0 = Num 0"
    using big by (intro overflow_nonneg) simp_all
  have c0: "0 \<le> (of_int ?c :: rat)" using b0 m0 by simp
  have "(of_int ?c :: rat) \<le> of_int mx" by simp
  with mfin have cfin: "(of_int ?c :: rat) < double_limit" by linarith
  have oc: "overflow (of_int ?c) = Num (of_int ?c)"
    using c0 cfin by (rule overflow_nonneg)
  have u2: "overflow (u * 2) = Num (u * 2)"
    using u big by (intro overflow_nonneg) simp_all
  have "overflow (u * 2 - 1) = Num (u * 2 - 1)"
    using u big by (simp add: overflow_def)
  with u2 have r: "js_sub (js_mul (Num u) (Num 2)) (Num 1) = Num (u * 2 - 1)"
    by (simp add: js_sub_def)
  have "calculateDelay b u n = js_round (js_add (Num (of_int ?c)) (Num 0))"
    unfolding calculateDelay_def Let_def j bs mx capped_exponential [OF b0 mfin dom] r
    by (simp add: z)
  also have "\<dots> = Num (of_int ?c)"
    using oc by (simp only: js_add.simps add_0_right js_round_of_int)
  finally show ?thesis .
qed

theorem calculateDelay_deterministic_witness:
  "calculateDelay plain_backoff (1 / 3) 2 = Num 4000 \<and>
   calculateDelay plain_backoff (1 / 3) 5 = Num 30000 \<and>
   calculateDelay plain_backoff (1 / 3) 2000 = Num 30000 \<and>
   calculateDelay zero_base_backoff (1 / 2) 1023 = Num 0"
proof -
  have fin: "of_int 30000 < double_limit"
    unfolding double_limit_def using power_strict_increasing [of 15 1024 "2::rat"] by simp
  have a: "calculateDelay plain_backoff (1 / 3) 2 = Num (of_int (min 30000 (1000 * 2 ^ 2)))"
    by (rule calculateDelay_deterministic [OF _ _ _ _ _ fin]) (simp_all add: plain_backoff_def)
  have b: "calculateDelay plain_backoff (1 / 3) 5 = Num (of_int (min 30000 (1000 * 2 ^ 5)))"
    by (rule calculateDelay_deterministic [OF _ _ _ _ _ fin]) (simp_all add: plain_backoff_def)
  have c: "calculateDelay plain_backoff (1 / 3) 2000 = Num (of_int (min 30000 (1000 * 2 ^ 2000)))"
    by (rule calculateDelay_deterministic [OF _ _ _ _ _ fin]) (simp_all add: plain_backoff_def)
  have d: "calculateDelay zero_base_backoff (1 / 2) 1023 = Num (of_int (min 30000 (0 * 2 ^ 1023)))"
    by (rule calculateDelay_deterministic [OF _ _ _ _ _ fin]) (simp_all add: zero_base_backoff_def)
  have "(30000::int) \<le> 1000 * 2 ^ 2000"
    using power_increasing [of 5 2000 "2::int"] by simp
  then have "min 30000 (1000 * 2 ^ 2000) = (30000::int)" by (simp only: min_absorb1)
  with a b c d show ?thesis by simp
qed

section \<open>Data model (types.ts)\<close>

text \<open>
  Record fields carry a prefix for their record (\<open>w_\<close> WorkerInfo, \<open>t_\<close> Task,
  \<open>r_\<close> TaskResult, \<open>d_\<close> the registration descriptor, \<open>h_\<close> HeartbeatPayload,
  \<open>s_\<close> TaskSubmission, \<open>u_\<close> a partial update), since several of the source's types
  share field names. Opaque values (payload, result, metadata) are strings, timestamps
  and loads are integers. \<open>maxRetries\<close> is any finite number, since nothing validates it
  (a rational); \<open>retries\<close> counts up from 0. \<open>Date.now()\<close> is a parameter \<open>now\<close>, read once
  per call.
\<close>

datatype WorkerStatus = Online | Busy | Degraded | Offline

record WorkerInfo =
  w_id :: string
  w_name :: string
  w_endpoint :: string
  w_status :: WorkerStatus
  w_lastHeartbeat :: int
  w_capabilities :: "string list"
  w_currentLoad :: int
  w_maxLoad :: int
  w_metadata :: "string option"

datatype TaskPriority = Low | Normal | High | Critical

datatype TaskStatus = Pending | Assigned | Running | Completed | Failed | Timeout

record Task =
  t_id :: string
  t_type :: string
  t_payload :: string
  t_priority :: TaskPriority
  t_status :: TaskStatus
  t_createdAt :: int
  t_assignedTo :: "string option"
  t_assignedAt :: "int option"
  t_completedAt :: "int option"
  t_result :: "string option"
  t_error :: "string option"
  t_retries :: int
  t_maxRetries :: rat
  t_timeoutMs :: int

record TaskResult =
  r_taskId :: string
  r_workerId :: string
  r_success :: bool
  r_result :: "string option"
  r_error :: "string option"
  r_durationMs :: int

datatype RoutingStrategy = RoundRobin | LeastLoaded | CapabilityMatch | Random

record OrchestratorConfig =
  routingStrategy :: RoutingStrategy
  heartbeatIntervalMs :: int
  missedHeartbeatsThreshold :: int
  defaultTaskTimeoutMs :: int
  defaultMaxRetries :: rat
  maxQueueSize :: int

record HeartbeatPayload =
  h_workerId :: string
  h_status :: WorkerStatus
  h_currentLoad :: int
  h_maxLoad :: int
  h_capabilities :: "string list"

record TaskAssignment =
  a_task :: Task
  a_workerId :: string

text \<open>The exceptions of the source, as values.\<close>

datatype error =
    QueueFull
  | WorkerNotFound string
  | ReduceOfEmptyArray

section \<open>Worker registry (worker-registry.ts)\<close>

text \<open>
  \<open>Omit<WorkerInfo, "lastHeartbeat" | "status">\<close>, the argument of \<open>register\<close>. The optional
  key \<open>metadata\<close> is \<open>None\<close> when the key is absent and \<open>Some v\<close> when it is present with
  the value \<open>v\<close> (which may be undefined): an object spread copies a present key only.
\<close>

record WorkerDescriptor =
  d_id :: string
  d_name :: string
  d_endpoint :: string
  d_capabilities :: "string list"
  d_currentLoad :: int
  d_maxLoad :: int
  d_metadata :: "string option option"

text \<open>\<open>Partial<WorkerInfo>\<close>: every key may be absent.\<close>

record WorkerUpdates =
  u_id :: "string option"
  u_name :: "string option"
  u_endpoint :: "string option"
  u_status :: "WorkerStatus option"
  u_lastHeartbeat :: "int option"
  u_capabilities :: "string list option"
  u_currentLoad :: "int option"
  u_maxLoad :: "int option"
  u_metadata :: "string option option"

definition noUpdates :: WorkerUpdates where
  "noUpdates = \<lparr>u_id = None, u_name = None, u_endpoint = None, u_status = None,
     u_lastHeartbeat = None, u_capabilities = None, u_currentLoad = None, u_maxLoad = None,
     u_metadata = None\<rparr>"

text \<open>The spread \<open>{ ...worker, ...updates }\<close>.\<close>

definition orElse :: "'a option \<Rightarrow> 'a \<Rightarrow> 'a" where
  "orElse x d = (case x of None \<Rightarrow> d | Some v \<Rightarrow> v)"

definition applyUpdates :: "WorkerInfo \<Rightarrow> WorkerUpdates \<Rightarrow> WorkerInfo" where
  "applyUpdates w u =
     \<lparr>w_id = orElse (u_id u) (w_id w),
      w_name = orElse (u_name u) (w_name w),
      w_endpoint = orElse (u_endpoint u) (w_endpoint w),
      w_status = orElse (u_status u) (w_status w),
      w_lastHeartbeat = orElse (u_lastHeartbeat u) (w_lastHeartbeat w),
      w_capabilities = orElse (u_capabilities u) (w_capabilities w),
      w_currentLoad = orElse (u_currentLoad u) (w_currentLoad w),
      w_maxLoad = orElse (u_maxLoad u) (w_maxLoad w),
      w_metadata = orElse (u_metadata u) (w_metadata w)\<rparr>"

text \<open>
  The \<open>Map<string, WorkerInfo>\<close> is an association list in insertion order: \<open>set\<close> on a
  present key replaces the value in place, on a new key it appends
  (\<^const>\<open>AList.update\<close>); \<open>delete\<close> is \<^const>\<open>AList.delete\<close>, \<open>get\<close> is \<^const>\<open>map_of\<close>.
\<close>

record WorkerRegistry =
  workers :: "(string \<times> WorkerInfo) list"
  reg_heartbeatIntervalMs :: int
  reg_missedHeartbeatsThreshold :: int

definition registry_get :: "WorkerRegistry \<Rightarrow> string \<Rightarrow> WorkerInfo option" where
  "registry_get r workerId = map_of (workers r) workerId"

definition getAll :: "WorkerRegistry \<Rightarrow> WorkerInfo list" where
  "getAll r = map snd (workers r)"

definition updateWorker ::
  "string \<Rightarrow> WorkerUpdates \<Rightarrow> WorkerRegistry \<Rightarrow> error + (WorkerInfo \<times> WorkerRegistry)" where
  "updateWorker workerId updates r =
     (case map_of (workers r) workerId of
        None \<Rightarrow> Inl (WorkerNotFound workerId)
      | Some worker \<Rightarrow>
          (let updated = applyUpdates worker updates
           in Inr (updated, r\<lparr>workers := AList.update workerId updated (workers r)\<rparr>)))"

definition register ::
  "int \<Rightarrow> WorkerDescriptor \<Rightarrow> WorkerRegistry \<Rightarrow> error + (WorkerInfo \<times> WorkerRegistry)" where
  "register now worker r =
     (case map_of (workers r) (d_id worker) of
        Some existing \<Rightarrow>
          updateWorker (d_id worker)
            \<lparr>u_id = Some (d_id worker), u_name = Some (d_name worker),
             u_endpoint = Some (d_endpoint worker), u_status = Some Online,
             u_lastHeartbeat = Some now, u_capabilities = Some (d_capabilities worker),
             u_currentLoad = Some (d_currentLoad worker), u_maxLoad = Some (d_maxLoad worker),
             u_metadata = d_metadata worker\<rparr> r
      | None \<Rightarrow>
          (let newWorker =
                 \<lparr>w_id = d_id worker, w_name = d_name worker, w_endpoint = d_endpoint worker,
                  w_status = Online, w_lastHeartbeat = now,
                  w_capabilities = d_capabilities worker, w_currentLoad = d_currentLoad worker,
                  w_maxLoad = d_maxLoad worker, w_metadata = orElse (d_metadata worker) None\<rparr>
           in Inr (newWorker, r\<lparr>workers := AList.update (d_id worker) newWorker (workers r)\<rparr>)))"

definition unregister :: "string \<Rightarrow> WorkerRegistry \<Rightarrow> bool \<times> WorkerRegistry" where
  "unregister workerId r =
     (map_of (workers r) workerId \<noteq> None, r\<lparr>workers := AList.delete workerId (workers r)\<rparr>)"

definition heartbeat ::
  "int \<Rightarrow> HeartbeatPayload \<Rightarrow> WorkerRegistry \<Rightarrow> error + (WorkerInfo option \<times> WorkerRegistry)" where
  "heartbeat now payload r =
     (case map_of (workers r) (h_workerId payload) of
        None \<Rightarrow> Inr (None, r)
      | Some worker \<Rightarrow>
          (case updateWorker (h_workerId payload)
                  (noUpdates\<lparr>u_status := Some (h_status payload),
                     u_currentLoad := Some (h_currentLoad payload),
                     u_maxLoad := Some (h_maxLoad payload),
                     u_capabilities := Some (h_capabilities payload),
                     u_lastHeartbeat := Some now\<rparr>) r of
             Inl e \<Rightarrow> Inl e
           | Inr (updated, r') \<Rightarrow> Inr (Some updated, r')))"

text \<open>
  \<open>checkWorkerHealth\<close>: the loop over the entries of the map. An update replaces the value
  of the entry being visited only, so the entries visited are those of the start. An
  exception of \<open>updateWorker\<close> would end the loop and keep the updates made so far.
\<close>

fun checkWorkerHealth_loop ::
  "int \<Rightarrow> int \<Rightarrow> (string \<times> WorkerInfo) list \<Rightarrow> WorkerRegistry \<Rightarrow> error option \<times> WorkerRegistry" where
  "checkWorkerHealth_loop now maxAge [] r = (None, r)"
| "checkWorkerHealth_loop now maxAge ((workerId, worker) # es) r =
     (if w_status worker = Offline then checkWorkerHealth_loop now maxAge es r
      else if now - w_lastHeartbeat worker > maxAge then
        (case updateWorker workerId (noUpdates\<lparr>u_status := Some Offline\<rparr>) r of
           Inl e \<Rightarrow> (Some e, r)
         | Inr (updated, r') \<Rightarrow> checkWorkerHealth_loop now maxAge es r')
      else checkWorkerHealth_loop now maxAge es r)"

definition checkWorkerHealth :: "int \<Rightarrow> WorkerRegistry \<Rightarrow> error option \<times> WorkerRegistry" where
  "checkWorkerHealth now r =
     (let maxAge = reg_heartbeatIntervalMs r * reg_missedHeartbeatsThreshold r
      in checkWorkerHealth_loop now maxAge (workers r) r)"

definition getByStatus :: "WorkerRegistry \<Rightarrow> WorkerStatus \<Rightarrow> WorkerInfo list" where
  "getByStatus r st = filter (\<lambda>w. w_status w = st) (getAll r)"

definition getAvailable :: "WorkerRegistry \<Rightarrow> WorkerInfo list" where
  "getAvailable r =
     filter (\<lambda>w. (w_status w = Online \<or> w_status w = Busy) \<and> w_currentLoad w < w_maxLoad w)
       (getAll r)"

definition getByCapability :: "WorkerRegistry \<Rightarrow> string \<Rightarrow> WorkerInfo list" where
  "getByCapability r capability =
     filter (\<lambda>w. capability \<in> set (w_capabilities w) \<and> w_status w = Online) (getAll r)"

record RegistryStats =
  rs_total :: nat
  rs_online :: nat
  rs_busy :: nat
  rs_degraded :: nat
  rs_offline :: nat
  rs_totalCapacity :: int
  rs_currentLoad :: int

definition registry_stats :: "WorkerRegistry \<Rightarrow> RegistryStats" where
  "registry_stats r =
     (let ws = getAll r in
      \<lparr>rs_total = length ws,
       rs_online = length (filter (\<lambda>w. w_status w = Online) ws),
       rs_busy = length (filter (\<lambda>w. w_status w = Busy) ws),
       rs_degraded = length (filter (\<lambda>w. w_status w = Degraded) ws),
       rs_offline = length (filter (\<lambda>w. w_status w = Offline) ws),
       rs_totalCapacity = foldl (\<lambda>sum w. sum + w_maxLoad w) 0 ws,
       rs_currentLoad = foldl (\<lambda>sum w. sum + w_currentLoad w) 0 ws\<rparr>)"

lemma length_update_same:
  "map_of al k = Some w \<Longrightarrow> length (AList.update k w' al) = length al"
  by (induction al) (auto split: if_splits)

lemma filter_update_same:
  "map_of al k = Some w \<Longrightarrow> P w' = P w \<Longrightarrow>
   length (filter (P \<circ> snd) (AList.update k w' al)) = length (filter (P \<circ> snd) al)"
  by (induction al) (auto split: if_splits)

lemma foldl_update_same:
  "map_of al k = Some w \<Longrightarrow> f w' = f w \<Longrightarrow>
   foldl (\<lambda>sum w. sum + f w) (a::int) (map snd (AList.update k w' al)) =
   foldl (\<lambda>sum w. sum + f w) a (map snd al)"
  by (induction al arbitrary: a) (auto split: if_splits)

lemma registry_stats_update_same:
  assumes "map_of (workers r) k = Some w"
    and "w_status w' = w_status w" and "w_maxLoad w' = w_maxLoad w"
    and "w_currentLoad w' = w_currentLoad w"
  shows "registry_stats (r\<lparr>workers := AList.update k w' (workers r)\<rparr>) = registry_stats r"
  using assms
  by (simp add: registry_stats_def getAll_def Let_def length_update_same
      filter_update_same foldl_update_same [where f = w_maxLoad]
      foldl_update_same [where f = w_currentLoad])

lemma map_of_update_self: "map_of (AList.update k v al) k = Some v"
  by (simp add: update_conv')

text \<open>
  C9. Registering the same descriptor a second time gives the registry the same
  \<open>stats()\<close> as after the first registration (counts per status, total capacity, current
  load); the worker is online, and its record differs from the one after the first call
  in \<open>lastHeartbeat\<close> only, which is the time of the second call.
\<close>

theorem register_twice_same_stats:
  "\<exists>w1 r1 w2 r2.
     register t1 d r = Inr (w1, r1) \<and> register t2 d r1 = Inr (w2, r2) \<and>
     registry_stats r2 = registry_stats r1 \<and>
     w_status w2 = Online \<and> w2 = w1\<lparr>w_lastHeartbeat := t2\<rparr> \<and>
     registry_get r2 (d_id d) = Some w2 \<and>
     workers r2 = AList.update (d_id d) w2 (workers r1)"
proof -
  obtain w1 r1 where r1: "register t1 d r = Inr (w1, r1)"
    and g1: "map_of (workers r1) (d_id d) = Some w1"
    and w1: "w_id w1 = d_id d" "w_name w1 = d_name d" "w_endpoint w1 = d_endpoint d"
      "w_status w1 = Online" "w_capabilities w1 = d_capabilities d"
      "w_currentLoad w1 = d_currentLoad d" "w_maxLoad w1 = d_maxLoad d"
      "w_metadata w1 = orElse (d_metadata d) (w_metadata w1)"
    by (cases "map_of (workers r) (d_id d)")
      (auto simp: register_def updateWorker_def Let_def applyUpdates_def orElse_def
        map_of_update_self split: option.splits)
  let ?w2 = "w1\<lparr>w_lastHeartbeat := t2\<rparr>"
  let ?r2 = "r1\<lparr>workers := AList.update (d_id d) ?w2 (workers r1)\<rparr>"
  have eq: "applyUpdates w1
            \<lparr>u_id = Some (d_id d), u_name = Some (d_name d),
             u_endpoint = Some (d_endpoint d), u_status = Some Online,
             u_lastHeartbeat = Some t2, u_capabilities = Some (d_capabilities d),
             u_currentLoad = Some (d_currentLoad d), u_maxLoad = Some (d_maxLoad d),
             u_metadata = d_metadata d\<rparr> = ?w2"
    using w1 by (cases w1) (simp add: applyUpdates_def orElse_def split: option.splits)
  have r2: "register t2 d r1 = Inr (?w2, ?r2)"
    using g1 eq by (simp add: register_def updateWorker_def Let_def)
  have st: "registry_stats ?r2 = registry_stats r1"
    using g1 by (rule registry_stats_update_same) simp_all
  show ?thesis
    using r1 r2 st w1(4) by (auto simp: registry_get_def map_of_update_self)
qed


section \<open>Task router (task-router.ts)\<close>

record TaskRouter =
  strategy :: RoutingStrategy
  roundRobinIndex :: nat

definition getEligibleWorkers :: "Task \<Rightarrow> WorkerRegistry \<Rightarrow> WorkerInfo list" where
  "getEligibleWorkers task registry =
     (let ws = getAvailable registry in
      if t_type task \<noteq> [] then
        (let capableWorkers =
               filter (\<lambda>w. length (w_capabilities w) = 0 \<or> t_type task \<in> set (w_capabilities w)) ws
         in if length capableWorkers > 0 then capableWorkers else ws)
      else ws)"

text \<open>
  \<open>selectRoundRobin\<close> is called on a non-empty array only (\<open>selectWorker\<close> returns null
  before); on an empty one JavaScript reads \<open>workers[NaN]\<close>, which is undefined (\<open>None\<close>).
\<close>

definition selectRoundRobin :: "WorkerInfo list \<Rightarrow> TaskRouter \<Rightarrow> WorkerInfo option \<times> TaskRouter" where
  "selectRoundRobin ws rt =
     (if ws = [] then (None, rt)
      else (Some (ws ! (roundRobinIndex rt mod length ws)),
            rt\<lparr>roundRobinIndex := (roundRobinIndex rt + 1) mod length ws\<rparr>))"

definition lessLoaded :: "WorkerInfo \<Rightarrow> WorkerInfo \<Rightarrow> WorkerInfo" where
  "lessLoaded best worker =
     (let bestRatio = js_div (w_currentLoad best) (w_maxLoad best);
          workerRatio = js_div (w_currentLoad worker) (w_maxLoad worker)
      in if js_lt workerRatio bestRatio then worker else best)"

text \<open>\<open>reduce\<close> without an initial value: a TypeError on an empty array.\<close>

fun selectLeastLoaded :: "WorkerInfo list \<Rightarrow> error + WorkerInfo" where
  "selectLeastLoaded [] = Inl ReduceOfEmptyArray"
| "selectLeastLoaded (w # ws) = Inr (foldl lessLoaded w ws)"

definition selectByCapability :: "WorkerInfo list \<Rightarrow> Task \<Rightarrow> error + WorkerInfo" where
  "selectByCapability ws task =
     (let exactMatch = filter (\<lambda>w. t_type task \<in> set (w_capabilities w)) ws
      in if length exactMatch > 0 then selectLeastLoaded exactMatch else selectLeastLoaded ws)"

text \<open>
  \<open>selectRandom\<close>: \<open>u\<close> is the value of \<open>Math.random()\<close>; an index outside the array
  reads undefined (\<open>None\<close>).
\<close>

definition selectRandom :: "WorkerInfo list \<Rightarrow> rat \<Rightarrow> WorkerInfo option" where
  "selectRandom ws u =
     (let index = \<lfloor>u * of_nat (length ws)\<rfloor>
      in if 0 \<le> index \<and> index < int (length ws) then Some (ws ! nat index) else None)"

definition selectWorker ::
  "WorkerInfo list \<Rightarrow> Task \<Rightarrow> rat \<Rightarrow> TaskRouter \<Rightarrow> error + (WorkerInfo option \<times> TaskRouter)" where
  "selectWorker ws task u rt =
     (if length ws = 0 then Inr (None, rt)
      else (case strategy rt of
              RoundRobin \<Rightarrow> Inr (selectRoundRobin ws rt)
            | LeastLoaded \<Rightarrow>
                (case selectLeastLoaded ws of Inl e \<Rightarrow> Inl e | Inr w \<Rightarrow> Inr (Some w, rt))
            | CapabilityMatch \<Rightarrow>
                (case selectByCapability ws task of Inl e \<Rightarrow> Inl e | Inr w \<Rightarrow> Inr (Some w, rt))
            | Random \<Rightarrow> Inr (selectRandom ws u, rt)))"

definition route ::
  "Task \<Rightarrow> WorkerRegistry \<Rightarrow> rat \<Rightarrow> TaskRouter \<Rightarrow> error + (TaskAssignment option \<times> TaskRouter)" where
  "route task registry u rt =
     (let ws = getEligibleWorkers task registry in
      if length ws = 0 then Inr (None, rt)
      else (case selectWorker ws task u rt of
              Inl e \<Rightarrow> Inl e
            | Inr (None, rt') \<Rightarrow> Inr (None, rt')
            | Inr (Some worker, rt') \<Rightarrow>
                Inr (Some \<lparr>a_task = task, a_workerId = w_id worker\<rparr>, rt')))"











subsection \<open>The least-loaded selection\<close>















section \<open>Circuit breaker (class CircuitBreaker)\<close>

datatype CircuitState = Closed | Open | HalfOpen

text \<open>A \<open>RequestRecord\<close> is the pair of its timestamp and its success flag.\<close>

record CircuitBreaker =
  cb_state :: CircuitState
  cb_records :: "(int \<times> bool) list"
  cb_lastFailure :: int
  cb_halfOpenSuccesses :: nat
  failureThreshold :: rat
  minimumRequests :: int
  windowMs :: int
  cooldownMs :: int
  successThreshold :: int

definition newCircuitBreaker :: "rat \<Rightarrow> int \<Rightarrow> int \<Rightarrow> int \<Rightarrow> int \<Rightarrow> CircuitBreaker" where
  "newCircuitBreaker ft mr wm cm st =
     \<lparr>cb_state = Closed, cb_records = [], cb_lastFailure = 0, cb_halfOpenSuccesses = 0,
      failureThreshold = ft, minimumRequests = mr, windowMs = wm, cooldownMs = cm,
      successThreshold = st\<rparr>"

definition transitionTo :: "CircuitState \<Rightarrow> CircuitBreaker \<Rightarrow> CircuitBreaker" where
  "transitionTo newState b =
     (if cb_state b = newState then b
      else (let b1 = b\<lparr>cb_state := newState\<rparr>;
                b2 = (if newState = HalfOpen then b1\<lparr>cb_halfOpenSuccesses := 0\<rparr> else b1)
            in if newState = Closed then b2\<lparr>cb_records := []\<rparr> else b2))"

definition pruneOldRecords :: "int \<Rightarrow> CircuitBreaker \<Rightarrow> CircuitBreaker" where
  "pruneOldRecords now b =
     (let cutoff = now - windowMs b
      in b\<lparr>cb_records := filter (\<lambda>r. fst r \<ge> cutoff) (cb_records b)\<rparr>)"

definition canExecute :: "int \<Rightarrow> CircuitBreaker \<Rightarrow> bool \<times> CircuitBreaker" where
  "canExecute now b0 =
     (let b = pruneOldRecords now b0 in
      case cb_state b of
        Closed \<Rightarrow> (True, b)
      | Open \<Rightarrow>
          (if now - cb_lastFailure b \<ge> cooldownMs b then (True, transitionTo HalfOpen b)
           else (False, b))
      | HalfOpen \<Rightarrow> (True, b))"

definition recordSuccess :: "int \<Rightarrow> CircuitBreaker \<Rightarrow> CircuitBreaker" where
  "recordSuccess now b0 =
     (let b = b0\<lparr>cb_records := cb_records b0 @ [(now, True)]\<rparr> in
      if cb_state b = HalfOpen then
        (let b1 = b\<lparr>cb_halfOpenSuccesses := cb_halfOpenSuccesses b + 1\<rparr>
         in if int (cb_halfOpenSuccesses b1) \<ge> successThreshold b1 then transitionTo Closed b1
            else b1)
      else b)"

text \<open>\<open>getFailureRate\<close> prunes the records, so it returns the breaker as well.\<close>

definition getFailureRate :: "int \<Rightarrow> CircuitBreaker \<Rightarrow> rat \<times> CircuitBreaker" where
  "getFailureRate now b0 =
     (let b = pruneOldRecords now b0 in
      if length (cb_records b) = 0 then (0, b)
      else (let failures = length (filter (\<lambda>r. \<not> snd r) (cb_records b))
            in (of_nat failures / of_nat (length (cb_records b)), b)))"

definition evaluateState :: "int \<Rightarrow> CircuitBreaker \<Rightarrow> CircuitBreaker" where
  "evaluateState now b =
     (if int (length (cb_records b)) < minimumRequests b then b
      else (let (failureRate, b1) = getFailureRate now b
            in if failureRate \<ge> failureThreshold b1 then transitionTo Open b1 else b1))"

definition recordFailure :: "int \<Rightarrow> CircuitBreaker \<Rightarrow> CircuitBreaker" where
  "recordFailure now b0 =
     (let b = b0\<lparr>cb_records := cb_records b0 @ [(now, False)], cb_lastFailure := now\<rparr> in
      if cb_state b = HalfOpen then transitionTo Open b
      else if cb_state b = Closed then evaluateState now b
      else b)"

definition reset :: "CircuitBreaker \<Rightarrow> CircuitBreaker" where
  "reset b = transitionTo Closed (b\<lparr>cb_records := [], cb_halfOpenSuccesses := 0\<rparr>)"

text \<open>
  Scenario 6: a new breaker with \<open>failureThreshold = 0.5\<close>, \<open>minimumRequests = 4\<close>,
  \<open>cooldownMs = 200\<close>, \<open>successThreshold = 2\<close> and a window of \<open>w\<close> ms, and the breaker
  after four failures recorded at the times \<open>t1 .. t4\<close>.
\<close>

definition scenario6_breaker :: "int \<Rightarrow> CircuitBreaker" where
  "scenario6_breaker w = newCircuitBreaker (1 / 2) 4 w 200 2"

definition four_failures :: "int \<Rightarrow> int \<Rightarrow> int \<Rightarrow> int \<Rightarrow> int \<Rightarrow> CircuitBreaker" where
  "four_failures w t1 t2 t3 t4 =
     recordFailure t4 (recordFailure t3 (recordFailure t2 (recordFailure t1 (scenario6_breaker w))))"

lemma getFailureRate_all_failures:
  assumes "\<forall>r \<in> set (cb_records b). \<not> snd r"
    and "\<exists>r \<in> set (cb_records b). fst r \<ge> now - windowMs b"
  shows "getFailureRate now b = (1, pruneOldRecords now b)"
proof -
  let ?c = "now - windowMs b"
  have ne: "filter (\<lambda>r. ?c \<le> fst r) (cb_records b) \<noteq> []"
    using assms(2) by (simp add: filter_empty_conv)
  have same: "filter (\<lambda>r. ?c \<le> fst r \<and> \<not> snd r) (cb_records b)
                = filter (\<lambda>r. ?c \<le> fst r) (cb_records b)"
    using assms(1) by (auto intro: filter_cong)
  show ?thesis
    using ne by (simp add: getFailureRate_def pruneOldRecords_def Let_def same)
qed

lemma evaluateState_all_failures:
  assumes "cb_state b = Closed" and "minimumRequests b \<le> int (length (cb_records b))"
    and "failureThreshold b \<le> 1"
    and "\<forall>r \<in> set (cb_records b). \<not> snd r"
    and "\<exists>r \<in> set (cb_records b). fst r \<ge> now - windowMs b"
  shows "evaluateState now b = (pruneOldRecords now b)\<lparr>cb_state := Open\<rparr>"
  using assms(1,2,3) getFailureRate_all_failures [OF assms(4,5)]
  by (simp add: evaluateState_def transitionTo_def pruneOldRecords_def Let_def)

lemma three_failures:
  "recordFailure t3 (recordFailure t2 (recordFailure t1 (scenario6_breaker w))) =
     (scenario6_breaker w)\<lparr>cb_records := [(t1, False), (t2, False), (t3, False)],
        cb_lastFailure := t3\<rparr>"
  by (simp add: recordFailure_def evaluateState_def scenario6_breaker_def newCircuitBreaker_def
      Let_def)

lemma four_failures_open:
  assumes "0 \<le> w"
  shows "four_failures w t1 t2 t3 t4 =
     (pruneOldRecords t4
        ((scenario6_breaker w)\<lparr>cb_records := [(t1, False), (t2, False), (t3, False), (t4, False)],
           cb_lastFailure := t4\<rparr>))\<lparr>cb_state := Open\<rparr>"
proof -
  let ?b = "(scenario6_breaker w)\<lparr>cb_records := [(t1, False), (t2, False), (t3, False), (t4, False)],
           cb_lastFailure := t4\<rparr>"
  have rf: "four_failures w t1 t2 t3 t4 = evaluateState t4 ?b"
    unfolding four_failures_def three_failures
    by (simp add: recordFailure_def scenario6_breaker_def newCircuitBreaker_def)
  have "evaluateState t4 ?b = (pruneOldRecords t4 ?b)\<lparr>cb_state := Open\<rparr>"
  proof (rule evaluateState_all_failures)
    show "\<exists>r \<in> set (cb_records ?b). fst r \<ge> t4 - windowMs ?b"
      using assms by (simp add: scenario6_breaker_def newCircuitBreaker_def)
  qed (simp_all add: scenario6_breaker_def newCircuitBreaker_def)
  with rf show ?thesis by simp
qed

lemma four_failures_fields:
  assumes "0 \<le> w"
  shows "cb_state (four_failures w t1 t2 t3 t4) = Open"
    and "cb_lastFailure (four_failures w t1 t2 t3 t4) = t4"
    and "cooldownMs (four_failures w t1 t2 t3 t4) = 200"
    and "successThreshold (four_failures w t1 t2 t3 t4) = 2"
  by (simp_all add: four_failures_open [OF assms] pruneOldRecords_def Let_def
      scenario6_breaker_def newCircuitBreaker_def)

lemma canExecute_open_cooling:
  assumes "cb_state b = Open" and "now - cb_lastFailure b < cooldownMs b"
  shows "fst (canExecute now b) = False" and "cb_state (snd (canExecute now b)) = Open"
  using assms by (simp_all add: canExecute_def pruneOldRecords_def Let_def)

lemma canExecute_open_cooled:
  assumes "cb_state b = Open" and "now - cb_lastFailure b \<ge> cooldownMs b"
  shows "fst (canExecute now b) = True" and "cb_state (snd (canExecute now b)) = HalfOpen"
    and "cb_halfOpenSuccesses (snd (canExecute now b)) = 0"
    and "successThreshold (snd (canExecute now b)) = successThreshold b"
  using assms by (simp_all add: canExecute_def pruneOldRecords_def transitionTo_def Let_def)

lemma halfOpen_probe:
  assumes "cb_state h = HalfOpen" and "cb_halfOpenSuccesses h = 0" and "successThreshold h = 2"
  shows "cb_state (recordSuccess u1 h) = HalfOpen"
    and "cb_state (recordSuccess u2 (recordSuccess u1 h)) = Closed"
    and "cb_records (recordSuccess u2 (recordSuccess u1 h)) = []"
    and "cb_state (recordFailure u1 h) = Open"
    and "cb_state (recordFailure u2 (recordSuccess u1 h)) = Open"
  using assms by (simp_all add: recordSuccess_def recordFailure_def transitionTo_def Let_def)

text \<open>
  C7. Scenario 6, for every window \<open>w \<ge> 0\<close> and all times: four failures recorded on the
  new (closed) breaker open it, and \<open>canExecute()\<close> returns false while less than
  \<open>cooldownMs = 200\<close> has passed since the last failure. Once the cooldown has elapsed the
  next \<open>canExecute()\<close> returns true and the state is half-open; from there two recorded
  successes close the breaker and clear its records, and a failure recorded before the
  second success (after none or after one) opens it again.
\<close>

theorem breaker_scenario:
  assumes "0 \<le> w"
  shows "cb_state (four_failures w t1 t2 t3 t4) = Open \<and>
    (now - t4 < 200 \<longrightarrow>
       fst (canExecute now (four_failures w t1 t2 t3 t4)) = False \<and>
       cb_state (snd (canExecute now (four_failures w t1 t2 t3 t4))) = Open) \<and>
    (now - t4 \<ge> 200 \<longrightarrow>
       (let h = snd (canExecute now (four_failures w t1 t2 t3 t4)) in
        fst (canExecute now (four_failures w t1 t2 t3 t4)) = True \<and>
        cb_state h = HalfOpen \<and>
        cb_state (recordSuccess u1 h) = HalfOpen \<and>
        cb_state (recordSuccess u2 (recordSuccess u1 h)) = Closed \<and>
        cb_records (recordSuccess u2 (recordSuccess u1 h)) = [] \<and>
        cb_state (recordFailure u1 h) = Open \<and>
        cb_state (recordFailure u2 (recordSuccess u1 h)) = Open))"
proof -
  let ?b = "four_failures w t1 t2 t3 t4"
  note f = four_failures_fields [OF assms, of t1 t2 t3 t4]
  have cooling: "now - t4 < 200 \<Longrightarrow>
      fst (canExecute now ?b) = False \<and> cb_state (snd (canExecute now ?b)) = Open"
    using canExecute_open_cooling [of ?b now] f by simp
  have cooled: "fst (canExecute now ?b) = True \<and> cb_state (snd (canExecute now ?b)) = HalfOpen \<and>
        cb_state (recordSuccess u1 (snd (canExecute now ?b))) = HalfOpen \<and>
        cb_state (recordSuccess u2 (recordSuccess u1 (snd (canExecute now ?b)))) = Closed \<and>
        cb_records (recordSuccess u2 (recordSuccess u1 (snd (canExecute now ?b)))) = [] \<and>
        cb_state (recordFailure u1 (snd (canExecute now ?b))) = Open \<and>
        cb_state (recordFailure u2 (recordSuccess u1 (snd (canExecute now ?b)))) = Open"
    if "now - t4 \<ge> 200"
  proof -
    have c: "now - cb_lastFailure ?b \<ge> cooldownMs ?b" using that f by simp
    note e = canExecute_open_cooled [OF f(1) c]
    have st: "successThreshold (snd (canExecute now ?b)) = 2" using e(4) f(4) by simp
    show ?thesis
      using e(1,2) halfOpen_probe [OF e(2) e(3) st] by simp
  qed
  show ?thesis
    using f(1) cooling cooled by (simp add: Let_def)
qed

theorem breaker_scenario_witness:
  "cb_state (four_failures 10000 1 2 3 4) = Open \<and>
   fst (canExecute 5 (four_failures 10000 1 2 3 4)) = False \<and>
   fst (canExecute 204 (four_failures 10000 1 2 3 4)) = True \<and>
   cb_state (snd (canExecute 204 (four_failures 10000 1 2 3 4))) = HalfOpen \<and>
   cb_state (recordSuccess 206 (recordSuccess 205 (snd (canExecute 204 (four_failures 10000 1 2 3 4))))) = Closed \<and>
   cb_state (recordFailure 206 (recordSuccess 205 (snd (canExecute 204 (four_failures 10000 1 2 3 4))))) = Open"
  using breaker_scenario [of 10000 1 2 3 4 5 205 206] breaker_scenario [of 10000 1 2 3 4 204 205 206]
  by (simp add: Let_def)


section \<open>Orchestrator (orchestrator.ts)\<close>

record TaskSubmission =
  s_type :: string
  s_payload :: string
  s_priority :: "TaskPriority option"
  s_timeoutMs :: "int option"
  s_maxRetries :: "rat option"

text \<open>The notifications to the observers of \<open>OrchestratorEvents\<close>, in the order they are made.\<close>

datatype Event =
    TaskAssigned Task string
  | TaskCompleted TaskResult
  | TaskFailed Task string
  | WorkerOnline WorkerInfo
  | WorkerOffline WorkerInfo

text \<open>
  The state of the class. \<open>taskQueue\<close> is the array of pending tasks; \<open>activeTasks\<close> and
  \<open>taskResults\<close> are the two maps, as association lists in insertion order. A Task object
  is held by one collection at a time, so the collections hold the tasks by value; the
  identity of a Task object is its \<open>id\<close> (minted by \<open>randomUUID()\<close>, here the parameter
  \<open>uuid\<close> of \<open>submitTask\<close>).
\<close>

record Orchestrator =
  config :: OrchestratorConfig
  registry :: WorkerRegistry
  router :: TaskRouter
  taskQueue :: "Task list"
  activeTasks :: "(string \<times> Task) list"
  taskResults :: "(string \<times> TaskResult) list"
  events :: "Event list"

definition newOrchestrator :: "OrchestratorConfig \<Rightarrow> Orchestrator" where
  "newOrchestrator cfg =
     \<lparr>config = cfg,
      registry = \<lparr>workers = [], reg_heartbeatIntervalMs = heartbeatIntervalMs cfg,
                  reg_missedHeartbeatsThreshold = missedHeartbeatsThreshold cfg\<rparr>,
      router = \<lparr>strategy = routingStrategy cfg, roundRobinIndex = 0\<rparr>,
      taskQueue = [], activeTasks = [], taskResults = [], events = []\<rparr>"

definition DEFAULT_CONFIG :: OrchestratorConfig where
  "DEFAULT_CONFIG = \<lparr>routingStrategy = LeastLoaded, heartbeatIntervalMs = 30000,
     missedHeartbeatsThreshold = 3, defaultTaskTimeoutMs = 60000, defaultMaxRetries = 2,
     maxQueueSize = 1000\<rparr>"

fun priorityOrder :: "TaskPriority \<Rightarrow> nat" where
  "priorityOrder Critical = 0"
| "priorityOrder High = 1"
| "priorityOrder Normal = 2"
| "priorityOrder Low = 3"

text \<open>
  The loop of \<open>insertByPriority\<close>: the index of the first entry whose priority rank is
  greater than \<open>taskPriority\<close>, counted from \<open>i\<close>; the length of the queue when there is none.
  (The queue is an array without holes, so the test \<open>!existingTask\<close> never holds.)
\<close>

fun insertIndex :: "nat \<Rightarrow> nat \<Rightarrow> Task list \<Rightarrow> nat" where
  "insertIndex taskPriority i [] = i"
| "insertIndex taskPriority i (existingTask # rest) =
     (if taskPriority < priorityOrder (t_priority existingTask) then i
      else insertIndex taskPriority (Suc i) rest)"

text \<open>\<open>splice(insertIndex, 0, task)\<close>.\<close>

definition insertByPriority :: "Task \<Rightarrow> Task list \<Rightarrow> Task list" where
  "insertByPriority task queue =
     (let taskPriority = priorityOrder (t_priority task);
          idx = insertIndex taskPriority 0 queue
      in take idx queue @ task # drop idx queue)"

definition newTask :: "OrchestratorConfig \<Rightarrow> string \<Rightarrow> int \<Rightarrow> TaskSubmission \<Rightarrow> Task" where
  "newTask cfg uuid now submission =
     \<lparr>t_id = uuid, t_type = s_type submission, t_payload = s_payload submission,
      t_priority = orElse (s_priority submission) Normal,
      t_status = Pending, t_createdAt = now,
      t_assignedTo = None, t_assignedAt = None, t_completedAt = None,
      t_result = None, t_error = None,
      t_retries = 0,
      t_maxRetries = orElse (s_maxRetries submission) (defaultMaxRetries cfg),
      t_timeoutMs = orElse (s_timeoutMs submission) (defaultTaskTimeoutMs cfg)\<rparr>"

definition submitTask ::
  "string \<Rightarrow> int \<Rightarrow> TaskSubmission \<Rightarrow> Orchestrator \<Rightarrow> error + (Task \<times> Orchestrator)" where
  "submitTask uuid now submission s =
     (if int (length (taskQueue s)) \<ge> maxQueueSize (config s) then Inl QueueFull
      else (let task = newTask (config s) uuid now submission
            in Inr (task, s\<lparr>taskQueue := insertByPriority task (taskQueue s)\<rparr>)))"

text \<open>The three ways \<open>reportTaskResult\<close> changes the Task object.\<close>

definition completeTask :: "int \<Rightarrow> TaskResult \<Rightarrow> Task \<Rightarrow> Task" where
  "completeTask now result task =
     task\<lparr>t_status := Completed, t_completedAt := Some now, t_result := r_result result\<rparr>"

definition retryTask :: "Task \<Rightarrow> Task" where
  "retryTask task =
     task\<lparr>t_retries := t_retries task + 1, t_status := Pending,
          t_assignedTo := None, t_assignedAt := None\<rparr>"

definition failTask :: "int \<Rightarrow> TaskResult \<Rightarrow> Task \<Rightarrow> Task" where
  "failTask now result task =
     task\<lparr>t_status := Failed, t_completedAt := Some now, t_error := r_error result\<rparr>"

text \<open>
  \<open>reportTaskResult\<close> returns nothing in the source; here the first component is the
  Task object as the call leaves it (\<open>None\<close> for an unknown task id): it stays visible to
  whoever holds the object after it has left the active table.
\<close>

definition reportTaskResult ::
  "int \<Rightarrow> TaskResult \<Rightarrow> Orchestrator \<Rightarrow> Task option \<times> Orchestrator" where
  "reportTaskResult now result s =
     (case map_of (activeTasks s) (r_taskId result) of
        None \<Rightarrow> (None, s)
      | Some task \<Rightarrow>
          (let s1 = s\<lparr>activeTasks := AList.delete (r_taskId result) (activeTasks s),
                      taskResults := AList.update (r_taskId result) result (taskResults s)\<rparr>
           in if r_success result then
                (Some (completeTask now result task),
                 s1\<lparr>events := events s1 @ [TaskCompleted result]\<rparr>)
              else if of_int (t_retries task) < t_maxRetries task then
                (Some (retryTask task),
                 s1\<lparr>taskQueue := insertByPriority (retryTask task) (taskQueue s1)\<rparr>)
              else
                (Some (failTask now result task),
                 s1\<lparr>events := events s1 @
                      [TaskFailed (failTask now result task)
                         (orElse (r_error result) ''Unknown error'')]\<rparr>)))"

definition getTask :: "Orchestrator \<Rightarrow> string \<Rightarrow> Task option" where
  "getTask s taskId =
     (case map_of (activeTasks s) taskId of
        Some t \<Rightarrow> Some t
      | None \<Rightarrow> find (\<lambda>t. t_id t = taskId) (taskQueue s))"

definition getTaskResult :: "Orchestrator \<Rightarrow> string \<Rightarrow> TaskResult option" where
  "getTaskResult s taskId = map_of (taskResults s) taskId"

record TaskStats =
  queued :: nat
  active :: nat
  completed :: nat
  failed :: nat

record OrchestratorStats =
  stats_workers :: RegistryStats
  stats_tasks :: TaskStats

text \<open>The \<open>reduce\<close> of \<open>stats()\<close>: the number of queued tasks per status.\<close>

definition queuedByStatus :: "Task list \<Rightarrow> (TaskStatus \<Rightarrow> nat option)" where
  "queuedByStatus queue =
     foldl (\<lambda>acc t. acc(t_status t \<mapsto> orElse (acc (t_status t)) 0 + 1)) Map.empty queue"

definition stats :: "Orchestrator \<Rightarrow> OrchestratorStats" where
  "stats s =
     \<lparr>stats_workers = registry_stats (registry s),
      stats_tasks =
        \<lparr>queued = length (taskQueue s),
         active = length (activeTasks s),
         completed = orElse (queuedByStatus (taskQueue s) Completed) 0,
         failed = orElse (queuedByStatus (taskQueue s) Failed) 0\<rparr>\<rparr>"

text \<open>
  \<open>checkTimeouts\<close>. The test \<open>task.assignedAt && now - task.assignedAt > task.timeoutMs\<close>
  fails for a missing and for a zero \<open>assignedAt\<close>; the result built for a task that passes
  it has \<open>durationMs = now - assignedAt\<close>.
\<close>

definition timedOut :: "int \<Rightarrow> Task \<Rightarrow> bool" where
  "timedOut now task =
     (case t_assignedAt task of
        None \<Rightarrow> False
      | Some assignedAt \<Rightarrow> assignedAt \<noteq> 0 \<and> now - assignedAt > t_timeoutMs task)"

definition timeoutResult :: "int \<Rightarrow> string \<Rightarrow> Task \<Rightarrow> TaskResult" where
  "timeoutResult now taskId task =
     \<lparr>r_taskId = taskId,
      r_workerId = orElse (t_assignedTo task) ''unknown'',
      r_success = False, r_result = None,
      r_error = Some ''Task timed out'',
      r_durationMs = now - orElse (t_assignedAt task) 0\<rparr>"

text \<open>
  The loop over the entries of the active table. A report deletes the entry being
  visited only, so the entries visited are those of the start.
\<close>

fun checkTimeouts_loop :: "int \<Rightarrow> (string \<times> Task) list \<Rightarrow> Orchestrator \<Rightarrow> Orchestrator" where
  "checkTimeouts_loop now [] s = s"
| "checkTimeouts_loop now ((taskId, task) # es) s =
     (if timedOut now task then
        checkTimeouts_loop now es (snd (reportTaskResult now (timeoutResult now taskId task) s))
      else checkTimeouts_loop now es s)"

definition checkTimeouts :: "int \<Rightarrow> Orchestrator \<Rightarrow> Orchestrator" where
  "checkTimeouts now s = checkTimeouts_loop now (activeTasks s) s"

text \<open>
  The loop of \<open>processQueue\<close> over the snapshot \<open>pendingTasks\<close>. \<open>rnd k\<close> is the value
  \<open>Math.random()\<close> would return in the \<open>k\<close>-th call of \<open>route\<close> of this tick.
  \<open>indexOf(task)\<close> and \<open>splice(index, 1)\<close> remove the first occurrence of the task, if any
  (\<^const>\<open>remove1\<close>; the queue holds no task twice, see \<open>located_run\<close>, so the task found
  by value is the object found by identity). An exception of the router would end the
  tick where it stands.
\<close>

definition assignTask :: "int \<Rightarrow> string \<Rightarrow> Task \<Rightarrow> Task" where
  "assignTask now workerId task =
     task\<lparr>t_status := Assigned, t_assignedTo := Some workerId, t_assignedAt := Some now\<rparr>"

fun processQueue_loop ::
  "int \<Rightarrow> (nat \<Rightarrow> rat) \<Rightarrow> nat \<Rightarrow> Task list \<Rightarrow> Orchestrator \<Rightarrow> Orchestrator" where
  "processQueue_loop now rnd k [] s = s"
| "processQueue_loop now rnd k (task # rest) s =
     (case route task (registry s) (rnd k) (router s) of
        Inl e \<Rightarrow> s
      | Inr (None, rt) \<Rightarrow> processQueue_loop now rnd (Suc k) rest (s\<lparr>router := rt\<rparr>)
      | Inr (Some assignment, rt) \<Rightarrow>
          (let task' = assignTask now (a_workerId assignment) task
           in processQueue_loop now rnd (Suc k) rest
                (s\<lparr>router := rt,
                   taskQueue := remove1 task (taskQueue s),
                   activeTasks := AList.update (t_id task') task' (activeTasks s),
                   events := events s @ [TaskAssigned task' (a_workerId assignment)]\<rparr>)))"

definition processQueue :: "int \<Rightarrow> (nat \<Rightarrow> rat) \<Rightarrow> Orchestrator \<Rightarrow> Orchestrator" where
  "processQueue now rnd s =
     (let s1 = checkTimeouts now s;
          pendingTasks = filter (\<lambda>t. t_status t = Pending) (taskQueue s1)
      in processQueue_loop now rnd 0 pendingTasks s1)"

definition registerWorker ::
  "int \<Rightarrow> WorkerDescriptor \<Rightarrow> Orchestrator \<Rightarrow> error + (WorkerInfo \<times> Orchestrator)" where
  "registerWorker now worker s =
     (case register now worker (registry s) of
        Inl e \<Rightarrow> Inl e
      | Inr (registered, r') \<Rightarrow>
          Inr (registered, s\<lparr>registry := r', events := events s @ [WorkerOnline registered]\<rparr>))"

definition unregisterWorker :: "string \<Rightarrow> Orchestrator \<Rightarrow> bool \<times> Orchestrator" where
  "unregisterWorker workerId s =
     (let worker = registry_get (registry s) workerId;
          (result, r') = unregister workerId (registry s)
      in (result,
          s\<lparr>registry := r',
            events := (case worker of
                         Some w \<Rightarrow> if result then events s @ [WorkerOffline w] else events s
                       | None \<Rightarrow> events s)\<rparr>))"

definition orchestrator_heartbeat ::
  "int \<Rightarrow> HeartbeatPayload \<Rightarrow> Orchestrator \<Rightarrow> error + (WorkerInfo option \<times> Orchestrator)" where
  "orchestrator_heartbeat now payload s =
     (case heartbeat now payload (registry s) of
        Inl e \<Rightarrow> Inl e
      | Inr (w, r') \<Rightarrow> Inr (w, s\<lparr>registry := r'\<rparr>))"

text \<open>
  The calls the orchestrator receives: from the control plane, from the assignment timer
  (\<open>ProcessQueue\<close>) and from the registry's health timer (\<open>CheckWorkerHealth\<close>). A call that
  throws leaves the state as it was.
\<close>

datatype Op =
    SubmitTask string int TaskSubmission
  | ReportTaskResult int TaskResult
  | ProcessQueue int "nat \<Rightarrow> rat"
  | RegisterWorker int WorkerDescriptor
  | UnregisterWorker string
  | Heartbeat int HeartbeatPayload
  | CheckWorkerHealth int

fun step :: "Orchestrator \<Rightarrow> Op \<Rightarrow> Orchestrator" where
  "step s (SubmitTask uuid now submission) =
     (case submitTask uuid now submission s of Inl e \<Rightarrow> s | Inr (t, s') \<Rightarrow> s')"
| "step s (ReportTaskResult now result) = snd (reportTaskResult now result s)"
| "step s (ProcessQueue now rnd) = processQueue now rnd s"
| "step s (RegisterWorker now worker) =
     (case registerWorker now worker s of Inl e \<Rightarrow> s | Inr (w, s') \<Rightarrow> s')"
| "step s (UnregisterWorker workerId) = snd (unregisterWorker workerId s)"
| "step s (Heartbeat now payload) =
     (case orchestrator_heartbeat now payload s of Inl e \<Rightarrow> s | Inr (w, s') \<Rightarrow> s')"
| "step s (CheckWorkerHealth now) = s\<lparr>registry := snd (checkWorkerHealth now (registry s))\<rparr>"

definition run :: "Orchestrator \<Rightarrow> Op list \<Rightarrow> Orchestrator" where
  "run s ops = foldl step s ops"

subsection \<open>Insertion by priority\<close>

abbreviation priorityRank :: "Task \<Rightarrow> nat" where
  "priorityRank t \<equiv> priorityOrder (t_priority t)"

lemma insertIndex_takeWhile:
  "insertIndex p i q = i + length (takeWhile (\<lambda>e. \<not> p < priorityRank e) q)"
  by (induction q arbitrary: i) auto

lemma insertByPriority_takeWhile:
  "insertByPriority task q =
     takeWhile (\<lambda>e. \<not> priorityRank task < priorityRank e) q @ task # dropWhile (\<lambda>e. \<not> priorityRank task < priorityRank e) q"
  by (simp add: insertByPriority_def Let_def insertIndex_takeWhile
      takeWhile_eq_take [symmetric] dropWhile_eq_drop [symmetric])

lemma insertByPriority_Nil: "insertByPriority task [] = [task]"
  by (simp add: insertByPriority_takeWhile)

lemma insertByPriority_Cons:
  "insertByPriority task (e # q) =
     (if priorityRank task < priorityRank e then task # e # q else e # insertByPriority task q)"
  by (simp add: insertByPriority_takeWhile)

lemma set_insertByPriority: "set (insertByPriority task q) = insert task (set q)"
  by (induction q) (auto simp: insertByPriority_Nil insertByPriority_Cons)


lemma distinct_ids_insertByPriority:
  "distinct (map t_id (insertByPriority task q)) \<longleftrightarrow>
     t_id task \<notin> set (map t_id q) \<and> distinct (map t_id q)"
  by (induction q) (auto simp: insertByPriority_Nil insertByPriority_Cons set_insertByPriority)







subsection \<open>How the operations change the collections\<close>

lemma map_of_None_delete: "map_of al k = None \<Longrightarrow> AList.delete k al = al"
  by (simp add: map_of_eq_None_iff)

lemma report_taskQueue:
  "taskQueue (snd (reportTaskResult now res s)) =
     (case map_of (activeTasks s) (r_taskId res) of
        None \<Rightarrow> taskQueue s
      | Some task \<Rightarrow>
          if \<not> r_success res \<and> of_int (t_retries task) < t_maxRetries task
          then insertByPriority (retryTask task) (taskQueue s) else taskQueue s)"
  by (simp add: reportTaskResult_def Let_def split: option.splits)

lemma report_activeTasks:
  "activeTasks (snd (reportTaskResult now res s)) = AList.delete (r_taskId res) (activeTasks s)"
  by (simp add: reportTaskResult_def Let_def map_of_None_delete split: option.splits)

lemma report_taskResults:
  "taskResults (snd (reportTaskResult now res s)) =
     (case map_of (activeTasks s) (r_taskId res) of
        None \<Rightarrow> taskResults s
      | Some task \<Rightarrow> AList.update (r_taskId res) res (taskResults s))"
  by (simp add: reportTaskResult_def Let_def split: option.splits)

lemma report_unchanged:
  "registry (snd (reportTaskResult now res s)) = registry s"
  "router (snd (reportTaskResult now res s)) = router s"
  "config (snd (reportTaskResult now res s)) = config s"
  by (simp_all add: reportTaskResult_def Let_def split: option.splits)

lemma checkTimeouts_loop_preserves:
  assumes "P s" and "\<And>res s. P s \<Longrightarrow> P (snd (reportTaskResult now res s))"
  shows "P (checkTimeouts_loop now es s)"
  using assms(1)
proof (induction es arbitrary: s)
  case Nil
  then show ?case by simp
next
  case (Cons e es)
  obtain k t where e: "e = (k, t)" by (cases e)
  show ?case
    using Cons assms(2) by (simp add: e split: option.splits)
qed

lemma t_id_assignTask [simp]: "t_id (assignTask now w task) = t_id task"
  by (simp add: assignTask_def)

lemma processQueue_loop_preserves:
  assumes "P s"
    and "\<And>s rt. P s \<Longrightarrow> P (s\<lparr>router := rt\<rparr>)"
    and "\<And>s rt task asg u. P s \<Longrightarrow>
           route task (registry s) u (router s) = Inr (Some asg, rt) \<Longrightarrow>
           P (s\<lparr>router := rt, taskQueue := remove1 task (taskQueue s),
                activeTasks :=
                  AList.update (t_id task) (assignTask now (a_workerId asg) task) (activeTasks s),
                events := events s @
                  [TaskAssigned (assignTask now (a_workerId asg) task) (a_workerId asg)]\<rparr>)"
  shows "P (processQueue_loop now rnd k ts s)"
  using assms(1)
proof (induction ts arbitrary: s k)
  case Nil
  then show ?case by simp
next
  case (Cons task ts)
  show ?case
  proof (cases "route task (registry s) (rnd k) (router s)")
    case (Inl e)
    then show ?thesis using Cons.prems by simp
  next
    case (Inr p)
    obtain a rt where p: "p = (a, rt)" by (cases p)
    show ?thesis
    proof (cases a)
      case None
      then show ?thesis
        using Inr p Cons.IH [OF assms(2) [OF Cons.prems]] by simp
    next
      case (Some asg)
      with Inr p have "route task (registry s) (rnd k) (router s) = Inr (Some asg, rt)"
        by simp
      from Cons.IH [OF assms(3) [OF Cons.prems this]] show ?thesis
        using Inr p Some by (simp add: Let_def)
    qed
  qed
qed

subsection \<open>The queue stays sorted\<close>





lemma run_Nil [simp]: "run s [] = s"
  by (simp add: run_def)

lemma run_Cons [simp]: "run s (op # ops) = run (step s op) ops"
  by (simp add: run_def)



subsection \<open>A run of submissions\<close>













subsection \<open>Association lists\<close>

lemma set_update_cases:
  "(k', v') \<in> set (AList.update k v al) \<Longrightarrow> (k', v') = (k, v) \<or> (k', v') \<in> set al"
  by (induction al) (auto split: if_splits)

lemma set_delete_subset: "set (AList.delete k al) \<subseteq> set al"
  by (induction al) auto



lemma in_set_delete: "(k, v) \<in> set (AList.delete k' al) \<longleftrightarrow> k \<noteq> k' \<and> (k, v) \<in> set al"
  by (induction al) auto

subsection \<open>The registry keeps every worker under its own id\<close>







subsection \<open>The router selects one of the workers it is given\<close>






subsection \<open>Which collections an operation touches\<close>


lemma processQueue_config: "config (processQueue now rnd s) = config s"
proof -
  have "config (checkTimeouts now s) = config s"
    unfolding checkTimeouts_def
    by (rule checkTimeouts_loop_preserves [where P = "\<lambda>s'. config s' = config s"])
      (simp_all add: report_unchanged)
  then show ?thesis
    unfolding processQueue_def Let_def
    by (rule processQueue_loop_preserves [where P = "\<lambda>s'. config s' = config s"]) simp_all
qed

lemma step_config: "config (step s op) = config s"
  by (cases op)
    (auto simp: submitTask_def Let_def report_unchanged processQueue_config registerWorker_def
      unregisterWorker_def orchestrator_heartbeat_def split: sum.splits prod.splits)

lemma run_config: "config (run s ops) = config s"
  by (induction ops arbitrary: s) (simp_all add: step_config)

lemma step_RegisterWorker_tasks:
  "taskQueue (step s (RegisterWorker now d)) = taskQueue s"
  "activeTasks (step s (RegisterWorker now d)) = activeTasks s"
  "taskResults (step s (RegisterWorker now d)) = taskResults s"
  by (auto simp: registerWorker_def split: sum.splits)

lemma step_UnregisterWorker_tasks:
  "taskQueue (step s (UnregisterWorker w)) = taskQueue s"
  "activeTasks (step s (UnregisterWorker w)) = activeTasks s"
  "taskResults (step s (UnregisterWorker w)) = taskResults s"
  by (auto simp: unregisterWorker_def Let_def split: prod.splits)

lemma step_Heartbeat_tasks:
  "taskQueue (step s (Heartbeat now p)) = taskQueue s"
  "activeTasks (step s (Heartbeat now p)) = activeTasks s"
  "taskResults (step s (Heartbeat now p)) = taskResults s"
  by (auto simp: orchestrator_heartbeat_def split: sum.splits)

lemmas step_registry_op_tasks =
  step_RegisterWorker_tasks step_UnregisterWorker_tasks step_Heartbeat_tasks

lemma step_SubmitTask_fields:
  "taskQueue (step s (SubmitTask uuid now sub)) =
     (if int (length (taskQueue s)) \<ge> maxQueueSize (config s) then taskQueue s
      else insertByPriority (newTask (config s) uuid now sub) (taskQueue s))"
  "activeTasks (step s (SubmitTask uuid now sub)) = activeTasks s"
  "taskResults (step s (SubmitTask uuid now sub)) = taskResults s"
  "registry (step s (SubmitTask uuid now sub)) = registry s"
  by (simp_all add: submitTask_def Let_def)

subsection \<open>Queued tasks are pending, active tasks are assigned\<close>

definition queue_pending :: "Orchestrator \<Rightarrow> bool" where
  "queue_pending s =
     (\<forall>t \<in> set (taskQueue s). t_status t = Pending \<and> t_assignedTo t = None \<and> t_assignedAt t = None)"

definition active_assigned :: "Orchestrator \<Rightarrow> bool" where
  "active_assigned s =
     (\<forall>(k, t) \<in> set (activeTasks s).
        t_id t = k \<and> t_status t = Assigned \<and> t_assignedTo t \<noteq> None \<and> t_assignedAt t \<noteq> None)"

definition shape :: "Orchestrator \<Rightarrow> bool" where
  "shape s = (queue_pending s \<and> active_assigned s)"

lemma shape_report:
  assumes "shape s"
  shows "shape (snd (reportTaskResult now res s))"
proof -
  have q: "queue_pending (snd (reportTaskResult now res s))"
    using assms
    by (auto simp: shape_def queue_pending_def report_taskQueue set_insertByPriority retryTask_def
        split: option.splits if_splits)
  have a: "active_assigned (snd (reportTaskResult now res s))"
    using assms set_delete_subset [of "r_taskId res" "activeTasks s"]
    by (auto simp: shape_def active_assigned_def report_activeTasks)
  from q a show ?thesis by (simp add: shape_def)
qed

lemma shape_assign:
  assumes "shape s"
  shows "shape (s\<lparr>router := rt, taskQueue := remove1 task (taskQueue s),
                activeTasks := AList.update (t_id task) (assignTask now w task) (activeTasks s),
                events := ev\<rparr>)"
proof -
  have "set (remove1 task (taskQueue s)) \<subseteq> set (taskQueue s)"
    by (rule set_remove1_subset)
  then show ?thesis
    using assms
    by (auto simp: shape_def queue_pending_def active_assigned_def assignTask_def
        dest!: set_update_cases)
qed

lemma shape_processQueue:
  assumes "shape s"
  shows "shape (processQueue now rnd s)"
proof -
  have "shape (checkTimeouts now s)"
    unfolding checkTimeouts_def
    by (rule checkTimeouts_loop_preserves [where P = shape, OF assms]) (rule shape_report)
  then show ?thesis
    unfolding processQueue_def Let_def
  proof (rule processQueue_loop_preserves [where P = shape])
    show "shape (s\<lparr>router := rt\<rparr>)" if "shape s" for s rt
      using that by (simp add: shape_def queue_pending_def active_assigned_def)
  qed (rule shape_assign)
qed

lemma shape_step: "shape s \<Longrightarrow> shape (step s op)"
proof (cases op)
  case (SubmitTask uuid now sub)
  assume "shape s"
  then show ?thesis
    unfolding SubmitTask shape_def queue_pending_def active_assigned_def step_SubmitTask_fields
    by (auto simp: set_insertByPriority newTask_def)
next
  case (ReportTaskResult now res)
  assume "shape s"
  then show ?thesis using ReportTaskResult by (simp add: shape_report)
next
  case (ProcessQueue now rnd)
  assume "shape s"
  then show ?thesis using ProcessQueue by (simp add: shape_processQueue)
next
  case (CheckWorkerHealth now)
  assume "shape s"
  then show ?thesis
    using CheckWorkerHealth by (simp add: shape_def queue_pending_def active_assigned_def)
qed (simp_all del: step.simps
      add: shape_def queue_pending_def active_assigned_def step_registry_op_tasks)

lemma shape_new: "shape (newOrchestrator cfg)"
  by (simp add: shape_def queue_pending_def active_assigned_def newOrchestrator_def)

lemma shape_run: "shape s \<Longrightarrow> shape (run s ops)"
  by (induction ops arbitrary: s) (simp_all add: shape_step)


subsection \<open>Assigned workers and the registry\<close>























subsection \<open>Scenarios\<close>

definition worker_w1 :: "string list \<Rightarrow> WorkerDescriptor" where
  "worker_w1 caps = \<lparr>d_id = ''w1'', d_name = ''W1'', d_endpoint = ''h1'',
     d_capabilities = caps, d_currentLoad = 0, d_maxLoad = 2, d_metadata = None\<rparr>"

definition submission :: "string \<Rightarrow> TaskSubmission" where
  "submission ty = \<lparr>s_type = ty, s_payload = ''hi'', s_priority = None,
     s_timeoutMs = None, s_maxRetries = None\<rparr>"

definition no_random :: "nat \<Rightarrow> rat" where
  "no_random k = 0"

text \<open>Register W1, submit T1, one tick: T1 is assigned to W1. Then W1 is unregistered.\<close>

definition assigned_ops :: "Op list" where
  "assigned_ops = [RegisterWorker 1000 (worker_w1 [''chat'']),
     SubmitTask ''T1'' 1001 (submission ''chat''), ProcessQueue 2000 no_random]"








subsection \<open>The retry bound\<close>

text \<open>A \<open>maxRetries\<close> that is a natural number, as the data model has it.\<close>

definition natural_maxRetries :: "Task \<Rightarrow> bool" where
  "natural_maxRetries t = (0 \<le> t_maxRetries t \<and> of_int \<lfloor>t_maxRetries t\<rfloor> = t_maxRetries t)"

definition retry_bounded :: "Task \<Rightarrow> bool" where
  "retry_bounded t =
     (0 \<le> t_retries t \<and> (natural_maxRetries t \<longrightarrow> of_int (t_retries t) \<le> t_maxRetries t))"

definition retries_ok :: "Orchestrator \<Rightarrow> bool" where
  "retries_ok s = (\<forall>t \<in> set (taskQueue s) \<union> snd ` set (activeTasks s). retry_bounded t)"

lemma natural_next:
  assumes "0 \<le> m" and "of_int \<lfloor>m\<rfloor> = m" and "of_int r < m"
  shows "of_int (r + 1) \<le> (m :: rat)"
proof -
  obtain k where k: "m = of_int k" using assms(2) by metis
  with assms(3) have "r < k" by simp
  then have "r + 1 \<le> k" by simp
  then show ?thesis unfolding k by (simp only: of_int_le_iff)
qed

lemma retry_bounded_retryTask:
  assumes "retry_bounded t" and "of_int (t_retries t) < t_maxRetries t"
  shows "retry_bounded (retryTask t)"
proof -
  have "of_int (t_retries t + 1) \<le> t_maxRetries t" if "natural_maxRetries t"
    using that assms(2) by (intro natural_next) (simp_all add: natural_maxRetries_def)
  then show ?thesis
    using assms(1) by (simp add: retry_bounded_def retryTask_def natural_maxRetries_def)
qed

lemma retry_bounded_assignTask: "retry_bounded t \<Longrightarrow> retry_bounded (assignTask now w t)"
  by (simp add: retry_bounded_def assignTask_def natural_maxRetries_def)

lemma retry_bounded_newTask: "retry_bounded (newTask cfg uuid now sub)"
  by (simp add: retry_bounded_def newTask_def natural_maxRetries_def)

lemma retries_ok_report:
  assumes "retries_ok s"
  shows "retries_ok (snd (reportTaskResult now res s))"
proof -
  have sub: "set (AList.delete (r_taskId res) (activeTasks s)) \<subseteq> set (activeTasks s)"
    by (rule set_delete_subset)
  show ?thesis
  proof (cases "map_of (activeTasks s) (r_taskId res)")
    case None
    then show ?thesis using assms by (simp add: reportTaskResult_def)
  next
    case (Some task)
    then have "(r_taskId res, task) \<in> set (activeTasks s)" by (rule map_of_SomeD)
    then have "task \<in> snd ` set (activeTasks s)" by force
    with assms have "retry_bounded task" by (auto simp: retries_ok_def)
    then have "retry_bounded (retryTask task)" if "of_int (t_retries task) < t_maxRetries task"
      using that by (rule retry_bounded_retryTask)
    then show ?thesis
      using assms sub Some
      unfolding retries_ok_def report_taskQueue report_activeTasks
      by (auto simp: set_insertByPriority)
  qed
qed

lemma retries_ok_assign:
  assumes "retries_ok s" and "retry_bounded task"
  shows "retries_ok (s\<lparr>router := rt, taskQueue := remove1 task (taskQueue s),
                activeTasks := AList.update (t_id task) (assignTask now w task) (activeTasks s),
                events := ev\<rparr>)"
proof -
  have q: "set (remove1 task (taskQueue s)) \<subseteq> set (taskQueue s)"
    by (rule set_remove1_subset)
  have "retry_bounded t"
    if "(k, t) \<in> set (AList.update (t_id task) (assignTask now w task) (activeTasks s))" for k t
  proof -
    from set_update_cases [OF that]
    consider "t = assignTask now w task" | "(k, t) \<in> set (activeTasks s)" by auto
    then show ?thesis
    proof cases
      case 1
      then show ?thesis using assms(2) by (simp add: retry_bounded_assignTask)
    next
      case 2
      then have "t \<in> snd ` set (activeTasks s)" by force
      then show ?thesis using assms(1) by (simp add: retries_ok_def)
    qed
  qed
  then show ?thesis
    using assms(1) q by (auto simp: retries_ok_def)
qed

text \<open>
  The loop of \<open>processQueue\<close> with the tasks it still has to visit: they are in the queue
  when the queue holds no task twice.
\<close>

lemma processQueue_loop_preserves_queued:
  assumes "P s" and "distinct ts" and "set ts \<subseteq> set (taskQueue s)"
    and "\<And>s rt. P s \<Longrightarrow> P (s\<lparr>router := rt\<rparr>)"
    and "\<And>s rt task asg u. P s \<Longrightarrow> task \<in> set (taskQueue s) \<Longrightarrow>
           route task (registry s) u (router s) = Inr (Some asg, rt) \<Longrightarrow>
           P (s\<lparr>router := rt, taskQueue := remove1 task (taskQueue s),
                activeTasks :=
                  AList.update (t_id task) (assignTask now (a_workerId asg) task) (activeTasks s),
                events := events s @
                  [TaskAssigned (assignTask now (a_workerId asg) task) (a_workerId asg)]\<rparr>)"
  shows "P (processQueue_loop now rnd k ts s)"
  using assms(1,2,3)
proof (induction ts arbitrary: s k)
  case Nil
  then show ?case by simp
next
  case (Cons task ts)
  then have mem: "task \<in> set (taskQueue s)" and d: "distinct ts" and nin: "task \<notin> set ts"
    and sub: "set ts \<subseteq> set (taskQueue s)"
    by simp_all
  show ?case
  proof (cases "route task (registry s) (rnd k) (router s)")
    case (Inl e)
    then show ?thesis using Cons.prems by simp
  next
    case (Inr p)
    obtain a rt where p: "p = (a, rt)" by (cases p)
    show ?thesis
    proof (cases a)
      case None
      have "P (processQueue_loop now rnd (Suc k) ts (s\<lparr>router := rt\<rparr>))"
        using Cons.prems(1) d sub by (intro Cons.IH assms(4)) simp_all
      then show ?thesis using Inr p None by simp
    next
      case (Some asg)
      with Inr p have r: "route task (registry s) (rnd k) (router s) = Inr (Some asg, rt)"
        by simp
      have "x \<in> set (remove1 task (taskQueue s))" if "x \<in> set ts" for x
      proof -
        from that nin have "x \<noteq> task" by auto
        moreover from that sub have "x \<in> set (taskQueue s)" by auto
        ultimately show ?thesis by (simp add: in_set_remove1)
      qed
      then have "set ts \<subseteq> set (remove1 task (taskQueue s))" by auto
      then have "P (processQueue_loop now rnd (Suc k) ts
          (s\<lparr>router := rt, taskQueue := remove1 task (taskQueue s),
                activeTasks :=
                  AList.update (t_id task) (assignTask now (a_workerId asg) task) (activeTasks s),
                events := events s @
                  [TaskAssigned (assignTask now (a_workerId asg) task) (a_workerId asg)]\<rparr>))"
        using d by (intro Cons.IH assms(5) [OF Cons.prems(1) mem r]) simp_all
      then show ?thesis using Inr p Some by (simp add: Let_def)
    qed
  qed
qed


lemma processQueue_loop_preserves_tasks:
  assumes "P s" and "\<forall>t \<in> set ts. Q t"
    and "\<And>s rt. P s \<Longrightarrow> P (s\<lparr>router := rt\<rparr>)"
    and "\<And>s rt task asg u. P s \<Longrightarrow> Q task \<Longrightarrow>
           route task (registry s) u (router s) = Inr (Some asg, rt) \<Longrightarrow>
           P (s\<lparr>router := rt, taskQueue := remove1 task (taskQueue s),
                activeTasks :=
                  AList.update (t_id task) (assignTask now (a_workerId asg) task) (activeTasks s),
                events := events s @
                  [TaskAssigned (assignTask now (a_workerId asg) task) (a_workerId asg)]\<rparr>)"
  shows "P (processQueue_loop now rnd k ts s)"
  using assms(1,2)
proof (induction ts arbitrary: s k)
  case Nil
  then show ?case by simp
next
  case (Cons task ts)
  then have q: "Q task" and qs: "\<forall>t \<in> set ts. Q t" by simp_all
  show ?case
  proof (cases "route task (registry s) (rnd k) (router s)")
    case (Inl e)
    then show ?thesis using Cons.prems by simp
  next
    case (Inr p)
    obtain a rt where p: "p = (a, rt)" by (cases p)
    show ?thesis
    proof (cases a)
      case None
      then show ?thesis
        using Inr p Cons.IH [OF assms(3) [OF Cons.prems(1)] qs] by simp
    next
      case (Some asg)
      with Inr p have r: "route task (registry s) (rnd k) (router s) = Inr (Some asg, rt)"
        by simp
      from Cons.IH [OF assms(4) [OF Cons.prems(1) q r] qs] show ?thesis
        using Inr p Some by (simp add: Let_def)
    qed
  qed
qed

lemma retries_ok_processQueue:
  assumes "retries_ok s"
  shows "retries_ok (processQueue now rnd s)"
proof -
  have c: "retries_ok (checkTimeouts now s)"
    unfolding checkTimeouts_def
    by (rule checkTimeouts_loop_preserves [where P = retries_ok, OF assms])
      (rule retries_ok_report)
  show ?thesis
    unfolding processQueue_def Let_def
  proof (rule processQueue_loop_preserves_tasks [where P = retries_ok and Q = retry_bounded, OF c])
    show "\<forall>t \<in> set (filter (\<lambda>t. t_status t = Pending) (taskQueue (checkTimeouts now s))).
            retry_bounded t"
      using c by (simp add: retries_ok_def)
    show "retries_ok (s\<lparr>router := rt\<rparr>)" if "retries_ok s" for s rt
      using that by (simp add: retries_ok_def)
  qed (rule retries_ok_assign)
qed

lemma retries_ok_step:
  assumes "retries_ok s"
  shows "retries_ok (step s op)"
proof (cases op)
  case (SubmitTask uuid now sub)
  show ?thesis
    using assms retry_bounded_newTask [of "config s" uuid now sub]
    unfolding SubmitTask retries_ok_def step_SubmitTask_fields
    by (auto simp: set_insertByPriority)
next
  case (ReportTaskResult now res)
  then show ?thesis using assms by (simp add: retries_ok_report)
next
  case (ProcessQueue now rnd)
  then show ?thesis using assms by (simp add: retries_ok_processQueue)
next
  case (CheckWorkerHealth now)
  then show ?thesis using assms by (simp add: retries_ok_def)
qed (use assms in \<open>simp_all del: step.simps add: retries_ok_def step_registry_op_tasks\<close>)

lemma retries_ok_run: "retries_ok s \<Longrightarrow> retries_ok (run s ops)"
  by (induction ops arbitrary: s) (simp_all add: retries_ok_step)

lemma retries_ok_new: "retries_ok (newOrchestrator cfg)"
  by (simp add: retries_ok_def newOrchestrator_def)

lemma reported_task_bound:
  assumes "retries_ok s" and "fst (reportTaskResult now res s) = Some t'"
    and "natural_maxRetries t'"
  shows "of_int (t_retries t') \<le> t_maxRetries t' \<and>
         (t_status t' = Failed \<longrightarrow> of_int (t_retries t') = t_maxRetries t')"
proof (cases "map_of (activeTasks s) (r_taskId res)")
  case None
  with assms(2) show ?thesis by (simp add: reportTaskResult_def)
next
  case (Some task)
  then have "(r_taskId res, task) \<in> set (activeTasks s)" by (rule map_of_SomeD)
  then have "task \<in> snd ` set (activeTasks s)" by force
  with assms(1) have b: "retry_bounded task"
    by (auto simp: retries_ok_def)
  from assms(2) Some consider
      "r_success res" "t' = completeTask now res task"
    | "\<not> r_success res" "of_int (t_retries task) < t_maxRetries task" "t' = retryTask task"
    | "\<not> r_success res" "\<not> of_int (t_retries task) < t_maxRetries task"
      "t' = failTask now res task"
    by (auto simp: reportTaskResult_def Let_def split: if_splits)
  then show ?thesis
  proof cases
    case 1
    then show ?thesis
      using b assms(3)
      by (simp add: completeTask_def retry_bounded_def natural_maxRetries_def)
  next
    case 2
    from retry_bounded_retryTask [OF b 2(2)] assms(3) show ?thesis
      unfolding 2(3) by (simp add: retry_bounded_def retryTask_def)
  next
    case 3
    then show ?thesis
      using b assms(3)
      by (simp add: failTask_def retry_bounded_def natural_maxRetries_def)
  qed
qed

lemma report_failure_exhausted:
  assumes "map_of (activeTasks s) (r_taskId res) = Some task" and "\<not> r_success res"
    and "of_int (t_retries task) = t_maxRetries task"
  shows "fst (reportTaskResult now res s) = Some (failTask now res task) \<and>
         t_status (failTask now res task) = Failed \<and>
         of_int (t_retries (failTask now res task)) = t_maxRetries (failTask now res task) \<and>
         taskQueue (snd (reportTaskResult now res s)) = taskQueue s"
  using assms by (simp add: reportTaskResult_def Let_def failTask_def)

text \<open>Scenario 2: W1 with the capability "code", a task T1 of this type, one retry allowed.\<close>

definition scenario2_config :: OrchestratorConfig where
  "scenario2_config = DEFAULT_CONFIG\<lparr>defaultMaxRetries := 1\<rparr>"

definition failure_result :: TaskResult where
  "failure_result = \<lparr>r_taskId = ''T1'', r_workerId = ''w1'', r_success = False,
     r_result = None, r_error = Some ''boom'', r_durationMs = 10\<rparr>"

definition scenario2_retry_ops :: "Op list" where
  "scenario2_retry_ops = [RegisterWorker 1000 (worker_w1 [''code'']),
     SubmitTask ''T1'' 1001 (submission ''code''), ProcessQueue 2000 no_random,
     ReportTaskResult 2010 failure_result]"

definition scenario2_ops :: "Op list" where
  "scenario2_ops = scenario2_retry_ops @ [ProcessQueue 3000 no_random, ReportTaskResult 3010 failure_result]"

text \<open>
  Two submissions that \<open>submitTask\<close> accepts as they are: one with \<open>maxRetries = -1\<close>, and
  the run of scenario 2 with \<open>maxRetries = 0.5\<close> for T1.
\<close>

definition negative_retries_ops :: "Op list" where
  "negative_retries_ops =
     [SubmitTask ''T1'' 1001 ((submission ''code'')\<lparr>s_maxRetries := Some (- 1)\<rparr>)]"

definition half_retries_ops :: "Op list" where
  "half_retries_ops = [RegisterWorker 1000 (worker_w1 [''code'']),
     SubmitTask ''T1'' 1001 ((submission ''code'')\<lparr>s_maxRetries := Some (1 / 2)\<rparr>),
     ProcessQueue 2000 no_random, ReportTaskResult 2010 failure_result]"

text \<open>
  C3, as stated, fails. A task submitted with \<open>maxRetries = -1\<close> is queued with
  \<open>retries = 0 > maxRetries\<close>. A task submitted with \<open>maxRetries = 0.5\<close> is retried after its
  first failure, and is then queued with \<open>retries = 1 > maxRetries\<close>; after the next tick
  a second failure makes it failed with \<open>retries = 1\<close>, which is not its \<open>maxRetries\<close>.
\<close>

theorem unvalidated_maxRetries:
  "map (\<lambda>t. (t_id t, t_retries t, t_maxRetries t))
     (taskQueue (run (newOrchestrator DEFAULT_CONFIG) negative_retries_ops)) = [(''T1'', 0, - 1)] \<and>
   map (\<lambda>t. (t_id t, t_retries t, t_maxRetries t))
     (taskQueue (run (newOrchestrator DEFAULT_CONFIG) half_retries_ops)) = [(''T1'', 1, 1 / 2)] \<and>
   map_option (\<lambda>t. (t_id t, t_status t, t_retries t, t_maxRetries t))
     (fst (reportTaskResult 3010 failure_result
        (run (newOrchestrator DEFAULT_CONFIG) (half_retries_ops @ [ProcessQueue 3000 no_random]))))
     = Some (''T1'', Failed, 1, 1 / 2)"
  by code_simp

text \<open>
  C3, amended. After any sequence of operations every task in the queue and in the
  active table has \<open>retries \<ge> 0\<close>, and \<open>retries \<le> maxRetries\<close> when its \<open>maxRetries\<close> is a
  natural number (\<open>submitTask\<close> stores any number it is given); the Task object that a
  call of \<open>reportTaskResult\<close> leaves behind, when its \<open>maxRetries\<close> is a natural number, has
  \<open>retries \<le> maxRetries\<close>, and \<open>retries = maxRetries\<close> when its status is failed. In any
  state, a failure reported for an active task with \<open>retries = maxRetries\<close> makes its status
  failed, with \<open>retries = maxRetries\<close>, and does not put it back into the queue.
\<close>

theorem retry_bound:
  "retries_ok (run (newOrchestrator cfg) ops) \<and>
   (\<forall>now res t'.
       fst (reportTaskResult now res (run (newOrchestrator cfg) ops)) = Some t' \<and>
       natural_maxRetries t' \<longrightarrow>
       of_int (t_retries t') \<le> t_maxRetries t' \<and>
       (t_status t' = Failed \<longrightarrow> of_int (t_retries t') = t_maxRetries t')) \<and>
   (\<forall>now res task.
       map_of (activeTasks s) (r_taskId res) = Some task \<and> \<not> r_success res \<and>
       of_int (t_retries task) = t_maxRetries task \<longrightarrow>
       fst (reportTaskResult now res s) = Some (failTask now res task) \<and>
       t_status (failTask now res task) = Failed \<and>
       of_int (t_retries (failTask now res task)) = t_maxRetries (failTask now res task) \<and>
       taskQueue (snd (reportTaskResult now res s)) = taskQueue s)"
proof -
  have r: "retries_ok (run (newOrchestrator cfg) ops)"
    using retries_ok_new by (rule retries_ok_run)
  show ?thesis
    using r reported_task_bound [OF r] report_failure_exhausted [of s] by blast
qed

theorem retry_bound_witness:
  "map (\<lambda>t. (t_id t, t_status t, t_retries t, t_maxRetries t))
     (taskQueue (run (newOrchestrator scenario2_config) scenario2_retry_ops))
     = [(''T1'', Pending, 1, 1)] \<and>
   natural_maxRetries (hd (taskQueue (run (newOrchestrator scenario2_config) scenario2_retry_ops))) \<and>
   map_option (\<lambda>t. (t_id t, t_status t, t_retries t, t_maxRetries t))
     (fst (reportTaskResult 3010 failure_result
        (run (newOrchestrator scenario2_config) (scenario2_retry_ops @ [ProcessQueue 3000 no_random]))))
     = Some (''T1'', Failed, 1, 1) \<and>
   of_int (t_retries (hd (taskQueue (run (newOrchestrator scenario2_config) scenario2_retry_ops))))
     \<le> t_maxRetries (hd (taskQueue (run (newOrchestrator scenario2_config) scenario2_retry_ops)))"
proof -
  have q: "map (\<lambda>t. (t_id t, t_status t, t_retries t, t_maxRetries t))
     (taskQueue (run (newOrchestrator scenario2_config) scenario2_retry_ops))
     = [(''T1'', Pending, 1, 1)]"
    by code_simp
  have n: "natural_maxRetries
     (hd (taskQueue (run (newOrchestrator scenario2_config) scenario2_retry_ops)))"
    by code_simp
  have f: "map_option (\<lambda>t. (t_id t, t_status t, t_retries t, t_maxRetries t))
     (fst (reportTaskResult 3010 failure_result
        (run (newOrchestrator scenario2_config) (scenario2_retry_ops @ [ProcessQueue 3000 no_random]))))
     = Some (''T1'', Failed, 1, 1)"
    by code_simp
  from q have "hd (taskQueue (run (newOrchestrator scenario2_config) scenario2_retry_ops))
      \<in> set (taskQueue (run (newOrchestrator scenario2_config) scenario2_retry_ops))"
    by (cases "taskQueue (run (newOrchestrator scenario2_config) scenario2_retry_ops)") auto
  with retry_bound [of scenario2_config scenario2_retry_ops "newOrchestrator scenario2_config"] n
  have "of_int (t_retries (hd (taskQueue (run (newOrchestrator scenario2_config) scenario2_retry_ops))))
     \<le> t_maxRetries (hd (taskQueue (run (newOrchestrator scenario2_config) scenario2_retry_ops)))"
    by (simp add: retries_ok_def retry_bounded_def)
  with q n f show ?thesis by simp
qed

subsection \<open>Where a task is\<close>

definition queue_ids :: "Orchestrator \<Rightarrow> string list" where
  "queue_ids s = map t_id (taskQueue s)"

definition active_ids :: "Orchestrator \<Rightarrow> string list" where
  "active_ids s = map fst (activeTasks s)"

definition result_ids :: "Orchestrator \<Rightarrow> string list" where
  "result_ids s = map fst (taskResults s)"

definition known_ids :: "Orchestrator \<Rightarrow> string list" where
  "known_ids s = queue_ids s @ active_ids s @ result_ids s"

definition exclusive :: "Orchestrator \<Rightarrow> bool" where
  "exclusive s =
     (distinct (queue_ids s) \<and> distinct (active_ids s) \<and>
      set (queue_ids s) \<inter> set (active_ids s) = {})"

text \<open>Every submitted id is new, as \<open>randomUUID()\<close> promises: no task has used it before.\<close>

fun fresh_ids :: "Orchestrator \<Rightarrow> Op list \<Rightarrow> bool" where
  "fresh_ids s [] = True"
| "fresh_ids s (op # ops) =
     ((case op of SubmitTask uuid now sub \<Rightarrow> uuid \<notin> set (known_ids s) | _ \<Rightarrow> True)
      \<and> fresh_ids (step s op) ops)"

text \<open>The ids of the tasks that \<open>submitTask\<close> accepted (the queue was not full).\<close>

fun accepted :: "Orchestrator \<Rightarrow> Op list \<Rightarrow> string list" where
  "accepted s [] = []"
| "accepted s (op # ops) =
     (case op of
        SubmitTask uuid now sub \<Rightarrow>
          (if int (length (taskQueue s)) \<ge> maxQueueSize (config s) then [] else [uuid])
      | _ \<Rightarrow> [])
     @ accepted (step s op) ops"

definition located :: "Orchestrator \<Rightarrow> bool" where
  "located s = (shape s \<and> exclusive s)"

lemma remove1_ids:
  "distinct (map f xs) \<Longrightarrow> x \<in> set xs \<Longrightarrow>
   distinct (map f (remove1 x xs)) \<and> set (map f (remove1 x xs)) = set (map f xs) - {f x}"
  by (induction xs) auto

lemma located_report:
  assumes "located s"
  shows "located (snd (reportTaskResult now res s)) \<and>
         set (known_ids (snd (reportTaskResult now res s))) = set (known_ids s)"
proof (cases "map_of (activeTasks s) (r_taskId res)")
  case None
  then show ?thesis using assms by (simp add: reportTaskResult_def)
next
  case (Some task)
  let ?k = "r_taskId res"
  let ?s' = "snd (reportTaskResult now res s)"
  from Some have mem: "(?k, task) \<in> set (activeTasks s)" by (rule map_of_SomeD)
  then have ka: "?k \<in> set (active_ids s)" by (force simp: active_ids_def)
  from assms mem have id: "t_id task = ?k"
    by (auto simp: located_def shape_def active_assigned_def)
  from assms ka have kq: "?k \<notin> set (queue_ids s)"
    by (auto simp: located_def exclusive_def)
  have a': "active_ids ?s' = removeAll ?k (active_ids s)"
    by (simp add: active_ids_def report_activeTasks delete_keys)
  have r': "set (result_ids ?s') = insert ?k (set (result_ids s))"
    using Some by (simp add: result_ids_def report_taskResults dom_update)
  have q': "queue_ids ?s' = queue_ids s \<or>
            (distinct (queue_ids ?s') \<and> set (queue_ids ?s') = insert ?k (set (queue_ids s)))"
    using Some assms kq id
    by (auto simp: queue_ids_def report_taskQueue retryTask_def located_def exclusive_def
        distinct_ids_insertByPriority set_insertByPriority)
  have sh: "shape ?s'" using assms by (simp add: located_def shape_report)
  have ex: "exclusive ?s'"
    using assms q' unfolding exclusive_def located_def a' by (auto simp: distinct_removeAll)
  have kn: "set (known_ids ?s') = set (known_ids s)"
    using q' ka unfolding known_ids_def a' by (auto simp: r')
  from sh ex kn show ?thesis by (simp add: located_def)
qed

lemma located_assign:
  assumes "located s" and "task \<in> set (taskQueue s)"
  shows "located (s\<lparr>router := rt, taskQueue := remove1 task (taskQueue s),
                activeTasks := AList.update (t_id task) (assignTask now w task) (activeTasks s),
                events := ev\<rparr>) \<and>
         set (known_ids (s\<lparr>router := rt, taskQueue := remove1 task (taskQueue s),
                activeTasks := AList.update (t_id task) (assignTask now w task) (activeTasks s),
                events := ev\<rparr>)) = set (known_ids s)"
proof -
  let ?s' = "s\<lparr>router := rt, taskQueue := remove1 task (taskQueue s),
                activeTasks := AList.update (t_id task) (assignTask now w task) (activeTasks s),
                events := ev\<rparr>"
  from assms(1) have dq: "distinct (map t_id (taskQueue s))"
    by (simp add: located_def exclusive_def queue_ids_def)
  from remove1_ids [OF dq assms(2)]
  have q': "distinct (queue_ids ?s')" "set (queue_ids ?s') = set (queue_ids s) - {t_id task}"
    by (simp_all add: queue_ids_def)
  have a': "distinct (active_ids ?s')" "set (active_ids ?s') = insert (t_id task) (set (active_ids s))"
    using assms(1) by (simp_all add: active_ids_def located_def exclusive_def distinct_update dom_update)
  have r': "result_ids ?s' = result_ids s" by (simp add: result_ids_def)
  have tq: "t_id task \<in> set (queue_ids s)" using assms(2) by (simp add: queue_ids_def)
  have ex: "exclusive ?s'"
    using assms(1) q' a' unfolding exclusive_def located_def by auto
  have sh: "shape ?s'" using assms(1) by (simp add: located_def shape_assign)
  have kn: "set (known_ids ?s') = set (known_ids s)"
    using tq unfolding known_ids_def by (auto simp: q' a' r')
  from sh ex kn show ?thesis by (simp add: located_def)
qed

lemma located_processQueue:
  assumes "located s"
  shows "located (processQueue now rnd s) \<and>
         set (known_ids (processQueue now rnd s)) = set (known_ids s)"
proof -
  let ?P = "\<lambda>s'. located s' \<and> set (known_ids s') = set (known_ids s)"
  have c: "?P (checkTimeouts now s)"
    unfolding checkTimeouts_def
    by (rule checkTimeouts_loop_preserves [where P = ?P]) (use assms located_report in auto)
  then have "distinct (taskQueue (checkTimeouts now s))"
    by (simp add: located_def exclusive_def queue_ids_def distinct_map)
  then have d: "distinct (filter (\<lambda>t. t_status t = Pending) (taskQueue (checkTimeouts now s)))"
    by simp
  show ?thesis
    unfolding processQueue_def Let_def
  proof (rule processQueue_loop_preserves_queued [where P = ?P, OF c d])
    show "?P (s'\<lparr>router := rt\<rparr>)" if "?P s'" for s' rt
      using that
      by (simp add: located_def shape_def queue_pending_def active_assigned_def exclusive_def
          known_ids_def queue_ids_def active_ids_def result_ids_def)
  next
    fix s' rt task asg u
    assume "?P s'" and "task \<in> set (taskQueue s')"
    then show "?P (s'\<lparr>router := rt, taskQueue := remove1 task (taskQueue s'),
                activeTasks :=
                  AList.update (t_id task) (assignTask now (a_workerId asg) task) (activeTasks s'),
                events := events s' @
                  [TaskAssigned (assignTask now (a_workerId asg) task) (a_workerId asg)]\<rparr>)"
      using located_assign [of s' task] by simp
  qed simp
qed


lemma located_step:
  assumes "located s"
    and "\<And>uuid now sub. op = SubmitTask uuid now sub \<Longrightarrow> uuid \<notin> set (known_ids s)"
  shows "located (step s op) \<and>
         set (known_ids (step s op)) = set (known_ids s) \<union> set (accepted s [op])"
proof (cases op)
  case (SubmitTask uuid now sub)
  from assms(2) [OF this] have fresh: "uuid \<notin> set (known_ids s)" .
  show ?thesis
  proof (cases "int (length (taskQueue s)) \<ge> maxQueueSize (config s)")
    case True
    then show ?thesis using assms(1) SubmitTask by (simp add: submitTask_def)
  next
    case False
    let ?t = "newTask (config s) uuid now sub"
    have st: "step s op = s\<lparr>taskQueue := insertByPriority ?t (taskQueue s)\<rparr>"
      using False SubmitTask by (simp add: submitTask_def Let_def)
    have id: "t_id ?t = uuid" by (simp add: newTask_def)
    have sh: "shape (step s op)"
      using assms(1) by (simp add: located_def shape_step)
    have ex: "exclusive (step s op)"
      using assms(1) fresh unfolding st
      by (auto simp: located_def exclusive_def known_ids_def queue_ids_def active_ids_def
          distinct_ids_insertByPriority set_insertByPriority id)
    have kn: "set (known_ids (step s op)) = insert uuid (set (known_ids s))"
      unfolding st
      by (auto simp: known_ids_def queue_ids_def active_ids_def result_ids_def
          set_insertByPriority id)
    from sh ex kn show ?thesis using False SubmitTask by (simp add: located_def)
  qed
next
  case (ReportTaskResult now res)
  then show ?thesis using located_report [OF assms(1)] by simp
next
  case (ProcessQueue now rnd)
  then show ?thesis using located_processQueue [OF assms(1)] by simp
next
  case (RegisterWorker now d)
  then show ?thesis
    using assms(1)
    by (simp del: step.simps add: located_def shape_def queue_pending_def active_assigned_def
        exclusive_def known_ids_def queue_ids_def active_ids_def result_ids_def
        step_registry_op_tasks)
next
  case (UnregisterWorker w)
  then show ?thesis
    using assms(1)
    by (simp del: step.simps add: located_def shape_def queue_pending_def active_assigned_def
        exclusive_def known_ids_def queue_ids_def active_ids_def result_ids_def
        step_registry_op_tasks)
next
  case (Heartbeat now p)
  then show ?thesis
    using assms(1)
    by (simp del: step.simps add: located_def shape_def queue_pending_def active_assigned_def
        exclusive_def known_ids_def queue_ids_def active_ids_def result_ids_def
        step_registry_op_tasks)
next
  case (CheckWorkerHealth now)
  then show ?thesis
    using assms(1)
    by (simp add: located_def shape_def queue_pending_def active_assigned_def
        exclusive_def known_ids_def queue_ids_def active_ids_def result_ids_def)
qed

lemma located_run:
  "located s \<Longrightarrow> fresh_ids s ops \<Longrightarrow>
   located (run s ops) \<and> set (known_ids (run s ops)) = set (known_ids s) \<union> set (accepted s ops)"
proof (induction ops arbitrary: s)
  case Nil
  then show ?case by simp
next
  case (Cons op ops)
  have st: "located (step s op) \<and>
         set (known_ids (step s op)) = set (known_ids s) \<union> set (accepted s [op])"
    using Cons.prems by (intro located_step) auto
  moreover have "fresh_ids (step s op) ops" using Cons.prems by simp
  ultimately have "located (run (step s op) ops) \<and>
      set (known_ids (run (step s op) ops))
        = set (known_ids (step s op)) \<union> set (accepted (step s op) ops)"
    using Cons.IH by blast
  with st show ?case by auto
qed

lemma known_ids_new: "known_ids (newOrchestrator cfg) = []"
  by (simp add: known_ids_def queue_ids_def active_ids_def result_ids_def newOrchestrator_def)

lemma located_new: "located (newOrchestrator cfg)"
proof -
  have "exclusive (newOrchestrator cfg)"
    by (simp add: exclusive_def queue_ids_def active_ids_def newOrchestrator_def)
  with shape_new show ?thesis by (simp only: located_def)
qed

text \<open>
  The results table against the queue and the active table: a task that is queued or
  active has no stored result as long as it has not been retried, and the result of the
  failure that caused its last retry afterwards.
\<close>

definition results_ok :: "Orchestrator \<Rightarrow> bool" where
  "results_ok s =
     (\<forall>t \<in> set (taskQueue s) \<union> snd ` set (activeTasks s).
        0 \<le> t_retries t \<and>
        (case getTaskResult s (t_id t) of
           None \<Rightarrow> t_retries t = 0
         | Some res \<Rightarrow> 0 < t_retries t \<and> \<not> r_success res))"

definition tracked :: "Orchestrator \<Rightarrow> bool" where
  "tracked s = (located s \<and> results_ok s)"

lemma tracked_report:
  assumes "tracked s"
  shows "tracked (snd (reportTaskResult now res s))"
proof (cases "map_of (activeTasks s) (r_taskId res)")
  case None
  then show ?thesis using assms by (simp add: reportTaskResult_def)
next
  case (Some task)
  let ?k = "r_taskId res"
  let ?s' = "snd (reportTaskResult now res s)"
  from assms have loc: "located s" and ok: "results_ok s" by (simp_all add: tracked_def)
  from Some have mem: "(?k, task) \<in> set (activeTasks s)" by (rule map_of_SomeD)
  then have ka: "?k \<in> set (active_ids s)" by (force simp: active_ids_def)
  from loc mem have id: "t_id task = ?k"
    by (auto simp: located_def shape_def active_assigned_def)
  from loc ka have kq: "?k \<notin> set (queue_ids s)"
    by (auto simp: located_def exclusive_def)
  from ok mem have r0: "0 \<le> t_retries task"
    by (force simp: results_ok_def)
  have res': "getTaskResult ?s' i = (if i = ?k then Some res else getTaskResult s i)" for i
    using Some by (simp add: getTaskResult_def report_taskResults update_conv')
  have "0 \<le> t_retries t \<and>
        (case getTaskResult ?s' (t_id t) of
           None \<Rightarrow> t_retries t = 0
         | Some res \<Rightarrow> 0 < t_retries t \<and> \<not> r_success res)"
    if t: "t \<in> set (taskQueue ?s') \<union> snd ` set (activeTasks ?s')" for t
  proof -
    from t consider
        (retried) "t = retryTask task" "\<not> r_success res"
      | (queued) "t \<in> set (taskQueue s)"
      | (active) k' where "(k', t) \<in> set (activeTasks s)" "k' \<noteq> ?k"
      using Some
      by (auto simp: report_taskQueue report_activeTasks set_insertByPriority in_set_delete
          split: if_splits)
    then show ?thesis
    proof cases
      case retried
      then show ?thesis using r0 id by (simp add: res' retryTask_def)
    next
      case queued
      then have "t_id t \<in> set (queue_ids s)" by (simp add: queue_ids_def)
      with kq have "t_id t \<noteq> ?k" by auto
      with ok queued show ?thesis by (simp add: res' results_ok_def)
    next
      case active
      with loc have "t_id t = k'"
        by (auto simp: located_def shape_def active_assigned_def)
      with active(2) have "t_id t \<noteq> ?k" by simp
      moreover from active(1) have "t \<in> snd ` set (activeTasks s)" by force
      ultimately show ?thesis using ok by (simp add: res' results_ok_def)
    qed
  qed
  then have "results_ok ?s'" unfolding results_ok_def by blast
  with located_report [OF loc, of now res] show ?thesis by (simp add: tracked_def)
qed

lemma tracked_assign:
  assumes "tracked s" and "task \<in> set (taskQueue s)"
  shows "tracked (s\<lparr>router := rt, taskQueue := remove1 task (taskQueue s),
                activeTasks := AList.update (t_id task) (assignTask now w task) (activeTasks s),
                events := ev\<rparr>)"
proof -
  let ?s' = "s\<lparr>router := rt, taskQueue := remove1 task (taskQueue s),
                activeTasks := AList.update (t_id task) (assignTask now w task) (activeTasks s),
                events := ev\<rparr>"
  from assms have loc: "located s" and ok: "results_ok s" by (simp_all add: tracked_def)
  have res': "getTaskResult ?s' i = getTaskResult s i" for i
    by (simp add: getTaskResult_def)
  have "0 \<le> t_retries t \<and>
        (case getTaskResult s (t_id t) of
           None \<Rightarrow> t_retries t = 0
         | Some res \<Rightarrow> 0 < t_retries t \<and> \<not> r_success res)"
    if t: "t \<in> set (taskQueue ?s') \<union> snd ` set (activeTasks ?s')" for t
  proof -
    from t consider
        (assigned) "t = assignTask now w task"
      | (queued) "t \<in> set (taskQueue s)"
      | (active) "t \<in> snd ` set (activeTasks s)"
      using set_remove1_subset [of task "taskQueue s"]
      by (auto dest!: set_update_cases)
    then show ?thesis
    proof cases
      case assigned
      from ok assms(2) have "0 \<le> t_retries task \<and>
        (case getTaskResult s (t_id task) of
           None \<Rightarrow> t_retries task = 0
         | Some res \<Rightarrow> 0 < t_retries task \<and> \<not> r_success res)"
        by (simp add: results_ok_def)
      then show ?thesis
        unfolding assigned by (simp add: assignTask_def split: option.splits)
    next
      case queued
      with ok show ?thesis by (simp add: results_ok_def)
    next
      case active
      with ok show ?thesis by (simp add: results_ok_def)
    qed
  qed
  then have "results_ok ?s'" unfolding results_ok_def res' by blast
  with located_assign [OF loc assms(2), where rt = rt and now = now and w = w and ev = ev] show ?thesis by (simp add: tracked_def)
qed

lemma tracked_processQueue:
  assumes "tracked s"
  shows "tracked (processQueue now rnd s)"
proof -
  have c: "tracked (checkTimeouts now s)"
    unfolding checkTimeouts_def
    by (rule checkTimeouts_loop_preserves [where P = tracked, OF assms]) (rule tracked_report)
  then have "distinct (taskQueue (checkTimeouts now s))"
    by (simp add: tracked_def located_def exclusive_def queue_ids_def distinct_map)
  then have d: "distinct (filter (\<lambda>t. t_status t = Pending) (taskQueue (checkTimeouts now s)))"
    by simp
  show ?thesis
    unfolding processQueue_def Let_def
  proof (rule processQueue_loop_preserves_queued [where P = tracked, OF c d])
    show "tracked (s'\<lparr>router := rt\<rparr>)" if "tracked s'" for s' rt
      using that
      by (simp add: tracked_def results_ok_def getTaskResult_def located_def shape_def
          queue_pending_def active_assigned_def exclusive_def queue_ids_def active_ids_def)
  next
    fix s' rt task asg u
    assume "tracked s'" and "task \<in> set (taskQueue s')"
    then show "tracked (s'\<lparr>router := rt, taskQueue := remove1 task (taskQueue s'),
                activeTasks :=
                  AList.update (t_id task) (assignTask now (a_workerId asg) task) (activeTasks s'),
                events := events s' @
                  [TaskAssigned (assignTask now (a_workerId asg) task) (a_workerId asg)]\<rparr>)"
      by (rule tracked_assign)
  qed simp
qed

lemma results_ok_same_tasks:
  assumes "results_ok s" and "taskQueue s' = taskQueue s" and "activeTasks s' = activeTasks s"
    and "taskResults s' = taskResults s"
  shows "results_ok s'"
  using assms by (simp add: results_ok_def getTaskResult_def)

lemma tracked_step:
  assumes "tracked s"
    and "\<And>uuid now sub. op = SubmitTask uuid now sub \<Longrightarrow> uuid \<notin> set (known_ids s)"
  shows "tracked (step s op)"
proof -
  from assms(1) have loc: "located s" and ok: "results_ok s" by (simp_all add: tracked_def)
  have l': "located (step s op)"
    using located_step [OF loc assms(2)] by simp
  have "results_ok (step s op)"
  proof (cases op)
    case (SubmitTask uuid now sub)
    from assms(2) [OF this] have "uuid \<notin> set (result_ids s)"
      by (simp add: known_ids_def)
    then have none: "getTaskResult s uuid = None"
      by (simp add: getTaskResult_def result_ids_def map_of_eq_None_iff)
    show ?thesis
      using ok none unfolding SubmitTask results_ok_def getTaskResult_def step_SubmitTask_fields
      by (auto simp: set_insertByPriority newTask_def)
  next
    case (ReportTaskResult now res)
    then show ?thesis using tracked_report [OF assms(1), of now res] by (simp add: tracked_def)
  next
    case (ProcessQueue now rnd)
    then show ?thesis using tracked_processQueue [OF assms(1), of now rnd] by (simp add: tracked_def)
  next
    case (RegisterWorker now d)
    show ?thesis
      unfolding RegisterWorker by (rule results_ok_same_tasks [OF ok]) (rule step_registry_op_tasks)+
  next
    case (UnregisterWorker w)
    show ?thesis
      unfolding UnregisterWorker by (rule results_ok_same_tasks [OF ok]) (rule step_registry_op_tasks)+
  next
    case (Heartbeat now p)
    show ?thesis
      unfolding Heartbeat by (rule results_ok_same_tasks [OF ok]) (rule step_registry_op_tasks)+
  next
    case (CheckWorkerHealth now)
    show ?thesis
      unfolding CheckWorkerHealth by (rule results_ok_same_tasks [OF ok]) simp_all
  qed
  with l' show ?thesis by (simp add: tracked_def)
qed

lemma tracked_run:
  "tracked s \<Longrightarrow> fresh_ids s ops \<Longrightarrow> tracked (run s ops)"
proof (induction ops arbitrary: s)
  case Nil
  then show ?case by simp
next
  case (Cons op ops)
  have "tracked (step s op)"
    using Cons.prems by (intro tracked_step) auto
  with Cons show ?case by simp
qed

lemma tracked_new: "tracked (newOrchestrator cfg)"
  using located_new [of cfg] by (simp add: tracked_def results_ok_def newOrchestrator_def)

text \<open>\<open>getTask\<close> finds the queued or active task of an id.\<close>

lemma getTask_live:
  assumes "located s" and "getTask s i = Some t"
  shows "t_id t = i \<and> t \<in> set (taskQueue s) \<union> snd ` set (activeTasks s)"
proof (cases "map_of (activeTasks s) i")
  case None
  with assms(2) have "find (\<lambda>t. t_id t = i) (taskQueue s) = Some t"
    by (simp add: getTask_def)
  then show ?thesis by (auto simp: find_Some_iff)
next
  case (Some t')
  with assms(2) have "t' = t" by (simp add: getTask_def)
  with Some have mem: "(i, t) \<in> set (activeTasks s)" by (auto dest: map_of_SomeD)
  with assms(1) have "t_id t = i"
    by (auto simp: located_def shape_def active_assigned_def)
  moreover from mem have "t \<in> snd ` set (activeTasks s)" by force
  ultimately show ?thesis by simp
qed

lemma getTask_found:
  assumes "i \<in> set (queue_ids s) \<union> set (active_ids s)"
  shows "\<exists>t. getTask s i = Some t"
proof (cases "map_of (activeTasks s) i")
  case None
  then have "i \<notin> set (active_ids s)"
    by (simp add: active_ids_def map_of_eq_None_iff)
  with assms have "i \<in> set (queue_ids s)" by simp
  then obtain t where "t \<in> set (taskQueue s)" "t_id t = i"
    by (auto simp: queue_ids_def)
  then have "find (\<lambda>t. t_id t = i) (taskQueue s) \<noteq> None"
    by (auto simp: find_None_iff)
  with None show ?thesis by (auto simp: getTask_def)
next
  case (Some t)
  then show ?thesis by (simp add: getTask_def)
qed

lemma tracked_result:
  assumes "tracked s" and "getTask s i = Some t"
  shows "(i \<in> set (result_ids s) \<longleftrightarrow> 0 < t_retries t) \<and>
         (\<forall>res. getTaskResult s i = Some res \<longrightarrow> \<not> r_success res)"
proof -
  from assms have loc: "located s" and ok: "results_ok s" by (simp_all add: tracked_def)
  from getTask_live [OF loc assms(2)]
  have id: "t_id t = i" and live: "t \<in> set (taskQueue s) \<union> snd ` set (activeTasks s)"
    by simp_all
  from ok live have c: "case getTaskResult s i of
           None \<Rightarrow> t_retries t = 0
         | Some res \<Rightarrow> 0 < t_retries t \<and> \<not> r_success res"
    unfolding results_ok_def id [symmetric] by blast
  have "i \<in> set (result_ids s) \<longleftrightarrow> getTaskResult s i \<noteq> None"
    by (simp add: result_ids_def getTaskResult_def map_of_eq_None_iff)
  with c show ?thesis by (auto split: option.splits)
qed

lemma report_location:
  assumes loc: "located s" and act: "map_of (activeTasks s) (r_taskId res) = Some task"
  shows "getTaskResult (snd (reportTaskResult now res s)) (r_taskId res) = Some res \<and>
         r_taskId res \<in> set (result_ids (snd (reportTaskResult now res s))) \<and>
         r_taskId res \<notin> set (active_ids (snd (reportTaskResult now res s))) \<and>
         (r_taskId res \<in> set (queue_ids (snd (reportTaskResult now res s)))
            \<longleftrightarrow> \<not> r_success res \<and> of_int (t_retries task) < t_maxRetries task)"
proof -
  let ?k = "r_taskId res"
  let ?s' = "snd (reportTaskResult now res s)"
  from act have mem: "(?k, task) \<in> set (activeTasks s)" by (rule map_of_SomeD)
  then have ka: "?k \<in> set (active_ids s)" by (force simp: active_ids_def)
  from loc mem have id: "t_id task = ?k"
    by (auto simp: located_def shape_def active_assigned_def)
  from loc ka have kq: "?k \<notin> set (queue_ids s)"
    by (auto simp: located_def exclusive_def)
  have r: "getTaskResult ?s' ?k = Some res"
    using act by (simp add: getTaskResult_def report_taskResults update_conv')
  then have ri: "?k \<in> set (result_ids ?s')"
    by (auto simp: getTaskResult_def result_ids_def dest: map_of_SomeD intro: rev_image_eqI)
  have a: "?k \<notin> set (active_ids ?s')"
    by (simp add: active_ids_def report_activeTasks delete_keys)
  have q: "?k \<in> set (queue_ids ?s') \<longleftrightarrow> \<not> r_success res \<and> of_int (t_retries task) < t_maxRetries task"
    using act kq id
    by (auto simp: queue_ids_def report_taskQueue set_insertByPriority retryTask_def)
  from r ri a q show ?thesis by simp
qed

text \<open>
  Scenario 1: no retries, W1 with the capability "chat", T1 of this type is assigned in
  one tick and reported as a success.
\<close>

definition scenario1_config :: OrchestratorConfig where
  "scenario1_config = DEFAULT_CONFIG\<lparr>defaultMaxRetries := 0, defaultTaskTimeoutMs := 5000\<rparr>"

definition success_result :: TaskResult where
  "success_result = \<lparr>r_taskId = ''T1'', r_workerId = ''w1'', r_success = True,
     r_result = Some ''ok'', r_error = None, r_durationMs = 42\<rparr>"

definition scenario1_ops :: "Op list" where
  "scenario1_ops = assigned_ops @ [ReportTaskResult 2042 success_result]"

text \<open>
  C1, as stated, fails: in scenario 2, after the first failure is reported (\<open>retries = 0 <
  maxRetries = 1\<close>), the task T1 is in the results table and in the pending queue.
\<close>

theorem retried_task_in_results_and_queue:
  "fresh_ids (newOrchestrator scenario2_config) scenario2_retry_ops \<and>
   accepted (newOrchestrator scenario2_config) scenario2_retry_ops = [''T1''] \<and>
   ''T1'' \<in> set (queue_ids (run (newOrchestrator scenario2_config) scenario2_retry_ops)) \<and>
   ''T1'' \<in> set (result_ids (run (newOrchestrator scenario2_config) scenario2_retry_ops))"
  by code_simp

text \<open>
  C1, amended. When every submitted id is new, then after any sequence of operations
  every accepted task is in exactly one of these places: in the pending queue and not in
  the active table, in the active table and not in the queue, or in neither and in the
  results table. No id is twice in the queue or in the active table, and the three
  collections hold accepted tasks only. The results table keeps the last result reported
  for a task: a task that is queued or active is in the results table exactly when it has
  been retried (\<open>retries > 0\<close>), and its stored result is then a failure; a task whose
  stored result is a success is neither queued nor active. A report for an active task
  stores its result and takes the task out of the active table; the task is back in the
  queue, and so in the queue and in the results table, exactly when the report is a
  failure with \<open>retries < maxRetries\<close>.
\<close>

theorem location_exclusivity:
  assumes "fresh_ids (newOrchestrator cfg) ops"
  shows "distinct (queue_ids (run (newOrchestrator cfg) ops)) \<and>
    distinct (active_ids (run (newOrchestrator cfg) ops)) \<and>
    set (known_ids (run (newOrchestrator cfg) ops)) = set (accepted (newOrchestrator cfg) ops) \<and>
    (\<forall>i \<in> set (accepted (newOrchestrator cfg) ops).
       (i \<in> set (queue_ids (run (newOrchestrator cfg) ops)) \<and>
        i \<notin> set (active_ids (run (newOrchestrator cfg) ops))) \<or>
       (i \<notin> set (queue_ids (run (newOrchestrator cfg) ops)) \<and>
        i \<in> set (active_ids (run (newOrchestrator cfg) ops))) \<or>
       (i \<notin> set (queue_ids (run (newOrchestrator cfg) ops)) \<and>
        i \<notin> set (active_ids (run (newOrchestrator cfg) ops)) \<and>
        i \<in> set (result_ids (run (newOrchestrator cfg) ops)))) \<and>
    (\<forall>i t. getTask (run (newOrchestrator cfg) ops) i = Some t \<longrightarrow>
       (i \<in> set (queue_ids (run (newOrchestrator cfg) ops)) \<or>
        i \<in> set (active_ids (run (newOrchestrator cfg) ops))) \<and>
       (i \<in> set (result_ids (run (newOrchestrator cfg) ops)) \<longleftrightarrow> 0 < t_retries t) \<and>
       (\<forall>res. getTaskResult (run (newOrchestrator cfg) ops) i = Some res \<longrightarrow> \<not> r_success res)) \<and>
    (\<forall>i res. getTaskResult (run (newOrchestrator cfg) ops) i = Some res \<and> r_success res \<longrightarrow>
       i \<notin> set (queue_ids (run (newOrchestrator cfg) ops)) \<and>
       i \<notin> set (active_ids (run (newOrchestrator cfg) ops))) \<and>
    (\<forall>now res task.
       map_of (activeTasks (run (newOrchestrator cfg) ops)) (r_taskId res) = Some task \<longrightarrow>
       getTaskResult (snd (reportTaskResult now res (run (newOrchestrator cfg) ops))) (r_taskId res)
         = Some res \<and>
       r_taskId res
         \<in> set (result_ids (snd (reportTaskResult now res (run (newOrchestrator cfg) ops)))) \<and>
       r_taskId res
         \<notin> set (active_ids (snd (reportTaskResult now res (run (newOrchestrator cfg) ops)))) \<and>
       (r_taskId res
          \<in> set (queue_ids (snd (reportTaskResult now res (run (newOrchestrator cfg) ops))))
        \<longleftrightarrow> \<not> r_success res \<and> of_int (t_retries task) < t_maxRetries task))"
proof -
  let ?s = "run (newOrchestrator cfg) ops"
  from located_run [OF located_new assms]
  have l: "located ?s" and k: "set (known_ids ?s) = set (accepted (newOrchestrator cfg) ops)"
    by (simp_all add: known_ids_new)
  have tr: "tracked ?s"
    using tracked_new assms by (rule tracked_run)
  from l have d: "distinct (queue_ids ?s)" "distinct (active_ids ?s)"
    and x: "set (queue_ids ?s) \<inter> set (active_ids ?s) = {}"
    by (simp_all add: located_def exclusive_def)
  have one: "(i \<in> set (queue_ids ?s) \<and> i \<notin> set (active_ids ?s)) \<or>
        (i \<notin> set (queue_ids ?s) \<and> i \<in> set (active_ids ?s)) \<or>
        (i \<notin> set (queue_ids ?s) \<and> i \<notin> set (active_ids ?s) \<and> i \<in> set (result_ids ?s))"
    if "i \<in> set (accepted (newOrchestrator cfg) ops)" for i
  proof -
    from that k have "i \<in> set (known_ids ?s)" by simp
    then have "i \<in> set (queue_ids ?s) \<or> i \<in> set (active_ids ?s) \<or> i \<in> set (result_ids ?s)"
      by (auto simp: known_ids_def)
    with x show ?thesis by blast
  qed
  have live: "(i \<in> set (queue_ids ?s) \<or> i \<in> set (active_ids ?s)) \<and>
       (i \<in> set (result_ids ?s) \<longleftrightarrow> 0 < t_retries t) \<and>
       (\<forall>res. getTaskResult ?s i = Some res \<longrightarrow> \<not> r_success res)"
    if g: "getTask ?s i = Some t" for i t
  proof -
    from getTask_live [OF l g] have "i \<in> set (queue_ids ?s) \<or> i \<in> set (active_ids ?s)"
      using l by (force simp: queue_ids_def active_ids_def located_def shape_def active_assigned_def)
    with tracked_result [OF tr g] show ?thesis by simp
  qed
  have succ: "i \<notin> set (queue_ids ?s) \<and> i \<notin> set (active_ids ?s)"
    if "getTaskResult ?s i = Some res \<and> r_success res" for i res
  proof (rule ccontr)
    assume "\<not> (i \<notin> set (queue_ids ?s) \<and> i \<notin> set (active_ids ?s))"
    then have "i \<in> set (queue_ids ?s) \<union> set (active_ids ?s)" by simp
    from getTask_found [OF this] obtain t where "getTask ?s i = Some t" by blast
    from live [OF this] that show False by blast
  qed
  have rep: "getTaskResult (snd (reportTaskResult now res ?s)) (r_taskId res) = Some res \<and>
       r_taskId res \<in> set (result_ids (snd (reportTaskResult now res ?s))) \<and>
       r_taskId res \<notin> set (active_ids (snd (reportTaskResult now res ?s))) \<and>
       (r_taskId res \<in> set (queue_ids (snd (reportTaskResult now res ?s)))
        \<longleftrightarrow> \<not> r_success res \<and> of_int (t_retries task) < t_maxRetries task)"
    if "map_of (activeTasks ?s) (r_taskId res) = Some task" for now res task
    using l that by (rule report_location)
  have a: "\<forall>i \<in> set (accepted (newOrchestrator cfg) ops).
       (i \<in> set (queue_ids ?s) \<and> i \<notin> set (active_ids ?s)) \<or>
       (i \<notin> set (queue_ids ?s) \<and> i \<in> set (active_ids ?s)) \<or>
       (i \<notin> set (queue_ids ?s) \<and> i \<notin> set (active_ids ?s) \<and> i \<in> set (result_ids ?s))"
    using one by blast
  have b: "\<forall>i t. getTask ?s i = Some t \<longrightarrow>
       (i \<in> set (queue_ids ?s) \<or> i \<in> set (active_ids ?s)) \<and>
       (i \<in> set (result_ids ?s) \<longleftrightarrow> 0 < t_retries t) \<and>
       (\<forall>res. getTaskResult ?s i = Some res \<longrightarrow> \<not> r_success res)"
    using live by blast
  have c: "\<forall>i res. getTaskResult ?s i = Some res \<and> r_success res \<longrightarrow>
       i \<notin> set (queue_ids ?s) \<and> i \<notin> set (active_ids ?s)"
    using succ by blast
  have e: "\<forall>now res task. map_of (activeTasks ?s) (r_taskId res) = Some task \<longrightarrow>
       getTaskResult (snd (reportTaskResult now res ?s)) (r_taskId res) = Some res \<and>
       r_taskId res \<in> set (result_ids (snd (reportTaskResult now res ?s))) \<and>
       r_taskId res \<notin> set (active_ids (snd (reportTaskResult now res ?s))) \<and>
       (r_taskId res \<in> set (queue_ids (snd (reportTaskResult now res ?s)))
        \<longleftrightarrow> \<not> r_success res \<and> of_int (t_retries task) < t_maxRetries task)"
    using rep by blast
  from d k a b c e show ?thesis by (intro conjI) 
qed

theorem location_exclusivity_witness:
  "fresh_ids (newOrchestrator scenario2_config) scenario2_ops \<and>
   accepted (newOrchestrator scenario2_config) scenario2_ops = [''T1''] \<and>
   ''T1'' \<notin> set (queue_ids (run (newOrchestrator scenario2_config) scenario2_ops)) \<and>
   ''T1'' \<notin> set (active_ids (run (newOrchestrator scenario2_config) scenario2_ops)) \<and>
   ''T1'' \<in> set (result_ids (run (newOrchestrator scenario2_config) scenario2_ops)) \<and>
   fresh_ids (newOrchestrator scenario2_config) scenario2_retry_ops \<and>
   map_option t_retries (getTask (run (newOrchestrator scenario2_config) scenario2_retry_ops) ''T1'')
     = Some 1 \<and>
   ''T1'' \<in> set (queue_ids (run (newOrchestrator scenario2_config) scenario2_retry_ops)) \<and>
   ''T1'' \<in> set (result_ids (run (newOrchestrator scenario2_config) scenario2_retry_ops)) \<and>
   map_option r_success
     (getTaskResult (run (newOrchestrator scenario2_config) scenario2_retry_ops) ''T1'') = Some False \<and>
   fresh_ids (newOrchestrator scenario1_config) scenario1_ops \<and>
   getTaskResult (run (newOrchestrator scenario1_config) scenario1_ops) ''T1'' = Some success_result \<and>
   r_success success_result \<and>
   ''T1'' \<notin> set (queue_ids (run (newOrchestrator scenario1_config) scenario1_ops)) \<and>
   ''T1'' \<notin> set (active_ids (run (newOrchestrator scenario1_config) scenario1_ops)) \<and>
   fresh_ids (newOrchestrator scenario2_config) (butlast scenario2_retry_ops) \<and>
   map_option (\<lambda>t. (t_retries t, t_maxRetries t))
     (map_of (activeTasks (run (newOrchestrator scenario2_config) (butlast scenario2_retry_ops)))
        (r_taskId failure_result)) = Some (0, 1) \<and>
   getTaskResult (snd (reportTaskResult 2010 failure_result
       (run (newOrchestrator scenario2_config) (butlast scenario2_retry_ops)))) ''T1''
     = Some failure_result \<and>
   ''T1'' \<in> set (queue_ids (snd (reportTaskResult 2010 failure_result
       (run (newOrchestrator scenario2_config) (butlast scenario2_retry_ops))))) \<and>
   ''T1'' \<in> set (result_ids (snd (reportTaskResult 2010 failure_result
       (run (newOrchestrator scenario2_config) (butlast scenario2_retry_ops))))) \<and>
   ''T1'' \<notin> set (active_ids (snd (reportTaskResult 2010 failure_result
       (run (newOrchestrator scenario2_config) (butlast scenario2_retry_ops)))))"
proof -
  have f: "fresh_ids (newOrchestrator scenario2_config) scenario2_ops"
    by code_simp
  have a: "accepted (newOrchestrator scenario2_config) scenario2_ops = [''T1'']"
    by code_simp
  have q: "''T1'' \<notin> set (queue_ids (run (newOrchestrator scenario2_config) scenario2_ops))"
    and c: "''T1'' \<notin> set (active_ids (run (newOrchestrator scenario2_config) scenario2_ops))"
    by code_simp+
  from location_exclusivity [OF f] a q c
  have r: "''T1'' \<in> set (result_ids (run (newOrchestrator scenario2_config) scenario2_ops))"
    by simp
  have f2: "fresh_ids (newOrchestrator scenario2_config) scenario2_retry_ops"
    by code_simp
  have g: "map_option t_retries
      (getTask (run (newOrchestrator scenario2_config) scenario2_retry_ops) ''T1'') = Some 1"
    by code_simp
  have s: "map_option r_success
     (getTaskResult (run (newOrchestrator scenario2_config) scenario2_retry_ops) ''T1'') = Some False"
    by code_simp
  from g obtain t where t: "getTask (run (newOrchestrator scenario2_config) scenario2_retry_ops) ''T1''
      = Some t" and "t_retries t = 1"
    by auto
  with location_exclusivity [OF f2]
  have r2: "''T1'' \<in> set (result_ids (run (newOrchestrator scenario2_config) scenario2_retry_ops))"
    by simp
  have q2: "''T1'' \<in> set (queue_ids (run (newOrchestrator scenario2_config) scenario2_retry_ops))"
    by code_simp
  have f1: "fresh_ids (newOrchestrator scenario1_config) scenario1_ops"
    by code_simp
  have g1: "getTaskResult (run (newOrchestrator scenario1_config) scenario1_ops) ''T1''
      = Some success_result"
    by code_simp
  have s1: "r_success success_result"
    by (simp add: success_result_def)
  from location_exclusivity [OF f1] g1 s1
  have x1: "''T1'' \<notin> set (queue_ids (run (newOrchestrator scenario1_config) scenario1_ops)) \<and>
       ''T1'' \<notin> set (active_ids (run (newOrchestrator scenario1_config) scenario1_ops))"
    by blast
  have f3: "fresh_ids (newOrchestrator scenario2_config) (butlast scenario2_retry_ops)"
    by code_simp
  have m: "map_option (\<lambda>t. (t_retries t, t_maxRetries t))
     (map_of (activeTasks (run (newOrchestrator scenario2_config) (butlast scenario2_retry_ops)))
        (r_taskId failure_result)) = Some (0, 1)"
    by code_simp
  then obtain task where task: "map_of (activeTasks (run (newOrchestrator scenario2_config)
        (butlast scenario2_retry_ops))) (r_taskId failure_result) = Some task"
    and tm: "t_retries task = 0" "t_maxRetries task = 1"
    by auto
  have k: "r_taskId failure_result = ''T1''" "\<not> r_success failure_result"
    by (simp_all add: failure_result_def)
  from location_exclusivity [OF f3] task
  have "getTaskResult (snd (reportTaskResult 2010 failure_result
       (run (newOrchestrator scenario2_config) (butlast scenario2_retry_ops))))
         (r_taskId failure_result) = Some failure_result \<and>
       r_taskId failure_result \<in> set (result_ids (snd (reportTaskResult 2010 failure_result
         (run (newOrchestrator scenario2_config) (butlast scenario2_retry_ops))))) \<and>
       r_taskId failure_result \<notin> set (active_ids (snd (reportTaskResult 2010 failure_result
         (run (newOrchestrator scenario2_config) (butlast scenario2_retry_ops))))) \<and>
       (r_taskId failure_result \<in> set (queue_ids (snd (reportTaskResult 2010 failure_result
         (run (newOrchestrator scenario2_config) (butlast scenario2_retry_ops)))))
        \<longleftrightarrow> \<not> r_success failure_result \<and> of_int (t_retries task) < t_maxRetries task)"
    by blast
  then have rep: "getTaskResult (snd (reportTaskResult 2010 failure_result
       (run (newOrchestrator scenario2_config) (butlast scenario2_retry_ops)))) ''T1''
         = Some failure_result \<and>
       ''T1'' \<in> set (result_ids (snd (reportTaskResult 2010 failure_result
         (run (newOrchestrator scenario2_config) (butlast scenario2_retry_ops))))) \<and>
       ''T1'' \<notin> set (active_ids (snd (reportTaskResult 2010 failure_result
         (run (newOrchestrator scenario2_config) (butlast scenario2_retry_ops))))) \<and>
       ''T1'' \<in> set (queue_ids (snd (reportTaskResult 2010 failure_result
         (run (newOrchestrator scenario2_config) (butlast scenario2_retry_ops)))))"
    unfolding k by (simp add: tm k)
  from f a q c r f2 g q2 r2 s f1 g1 s1 x1 f3 m rep show ?thesis by simp
qed


subsection \<open>The task counts of \<open>stats()\<close>\<close>

lemma foldl_count_status:
  "foldl (\<lambda>acc t. acc(t_status t \<mapsto> orElse (acc (t_status t)) 0 + 1)) acc q st =
     (if filter (\<lambda>t. t_status t = st) q = [] then acc st
      else Some (orElse (acc st) 0 + length (filter (\<lambda>t. t_status t = st) q)))"
  by (induction q arbitrary: acc) (auto simp: orElse_def)

lemma queuedByStatus_count:
  "orElse (queuedByStatus q st) 0 = length (filter (\<lambda>t. t_status t = st) q)"
  unfolding queuedByStatus_def foldl_count_status by (simp add: orElse_def)

lemma stats_pending_queue:
  assumes "queue_pending s"
  shows "completed (stats_tasks (stats s)) = 0 \<and> failed (stats_tasks (stats s)) = 0"
proof -
  have "filter (\<lambda>t. t_status t = Completed) (taskQueue s) = []"
    "filter (\<lambda>t. t_status t = Failed) (taskQueue s) = []"
    using assms by (auto simp: queue_pending_def filter_empty_conv)
  then show ?thesis by (simp add: stats_def queuedByStatus_count)
qed

lemma stats_never_counts_finished:
  "completed (stats_tasks (stats (run (newOrchestrator cfg) ops))) = 0 \<and>
   failed (stats_tasks (stats (run (newOrchestrator cfg) ops))) = 0"
  using shape_run [OF shape_new, of cfg ops] by (simp add: shape_def stats_pending_queue)

text \<open>
  C2 does not hold of the code: \<open>stats()\<close> counts the completed and the failed tasks among
  the tasks of the pending queue, which are all pending, so both counts are 0 whatever has
  happened (\<open>stats_never_counts_finished\<close>). In scenario 1 the result of T1 is stored as a
  success and \<open>completed\<close> is 0; in scenario 2 T1 has failed for good and \<open>failed\<close> is 0.
\<close>

theorem stats_scenarios:
  "getTaskResult (run (newOrchestrator scenario1_config) scenario1_ops) ''T1'' = Some success_result \<and>
   last (events (run (newOrchestrator scenario1_config) scenario1_ops)) = TaskCompleted success_result \<and>
   completed (stats_tasks (stats (run (newOrchestrator scenario1_config) scenario1_ops))) = 0 \<and>
   getTaskResult (run (newOrchestrator scenario2_config) scenario2_ops) ''T1'' = Some failure_result \<and>
   (\<exists>t. last (events (run (newOrchestrator scenario2_config) scenario2_ops)) = TaskFailed t ''boom''
        \<and> t_id t = ''T1'' \<and> t_status t = Failed) \<and>
   failed (stats_tasks (stats (run (newOrchestrator scenario2_config) scenario2_ops))) = 0"
proof -
  have a: "getTaskResult (run (newOrchestrator scenario1_config) scenario1_ops) ''T1'' = Some success_result"
    by code_simp
  have b: "last (events (run (newOrchestrator scenario1_config) scenario1_ops)) = TaskCompleted success_result"
    by code_simp
  have c: "getTaskResult (run (newOrchestrator scenario2_config) scenario2_ops) ''T1'' = Some failure_result"
    by code_simp
  have d: "(case last (events (run (newOrchestrator scenario2_config) scenario2_ops)) of
             TaskFailed t e \<Rightarrow> e = ''boom'' \<and> t_id t = ''T1'' \<and> t_status t = Failed
           | _ \<Rightarrow> False)"
    by code_simp
  have e: "completed (stats_tasks (stats (run (newOrchestrator scenario1_config) scenario1_ops))) = 0"
    "failed (stats_tasks (stats (run (newOrchestrator scenario2_config) scenario2_ops))) = 0"
    by (simp_all add: stats_never_counts_finished)
  from d have "\<exists>t. last (events (run (newOrchestrator scenario2_config) scenario2_ops)) = TaskFailed t ''boom''
        \<and> t_id t = ''T1'' \<and> t_status t = Failed"
    by (cases "last (events (run (newOrchestrator scenario2_config) scenario2_ops))") auto
  with a b c e show ?thesis by simp
qed


subsection \<open>The timeout sweep\<close>

text \<open>What the sweep leaves of an active task \<open>t\<close>, stored under \<open>k\<close>, that has timed out.\<close>

definition swept :: "int \<Rightarrow> Orchestrator \<Rightarrow> string \<Rightarrow> Task \<Rightarrow> bool" where
  "swept now s k t =
     (k \<notin> set (active_ids s) \<and>
      getTaskResult s k = Some (timeoutResult now k t) \<and>
      (if of_int (t_retries t) < t_maxRetries t
       then retryTask t \<in> set (taskQueue s)
       else k \<notin> set (queue_ids s) \<and>
            TaskFailed (failTask now (timeoutResult now k t) t) ''Task timed out'' \<in> set (events s)))"

lemma report_events_mono:
  "set (events s) \<subseteq> set (events (snd (reportTaskResult now res s)))"
  by (auto simp: reportTaskResult_def Let_def split: option.splits)

lemma report_queue_mono:
  "set (taskQueue s) \<subseteq> set (taskQueue (snd (reportTaskResult now res s)))"
  by (auto simp: report_taskQueue set_insertByPriority split: option.splits)

lemma report_first:
  assumes "located s" and "map_of (activeTasks s) k = Some t"
  shows "swept now (snd (reportTaskResult now (timeoutResult now k t) s)) k t"
proof -
  let ?res = "timeoutResult now k t"
  let ?s' = "snd (reportTaskResult now ?res s)"
  have rk: "r_taskId ?res = k" "\<not> r_success ?res" "r_error ?res = Some ''Task timed out''"
    by (simp_all add: timeoutResult_def)
  from assms(2) have mem: "(k, t) \<in> set (activeTasks s)" by (rule map_of_SomeD)
  then have "k \<in> set (active_ids s)" by (force simp: active_ids_def)
  with assms(1) have kq: "k \<notin> set (queue_ids s)"
    by (auto simp: located_def exclusive_def)
  have a: "k \<notin> set (active_ids ?s')"
    using delete_notin_dom [of k "activeTasks s"]
    by (simp add: active_ids_def report_activeTasks rk)
  have r: "getTaskResult ?s' k = Some ?res"
    using assms(2) by (simp add: getTaskResult_def report_taskResults rk update_conv')
  have q: "retryTask t \<in> set (taskQueue ?s')" if "of_int (t_retries t) < t_maxRetries t"
    using that assms(2) by (simp add: report_taskQueue rk set_insertByPriority)
  have f: "k \<notin> set (queue_ids ?s') \<and>
      TaskFailed (failTask now ?res t) ''Task timed out'' \<in> set (events ?s')"
    if "\<not> of_int (t_retries t) < t_maxRetries t"
    using that assms(2) kq
    by (simp add: reportTaskResult_def Let_def rk queue_ids_def orElse_def)
  from a r q f show ?thesis by (simp add: swept_def)
qed

lemma swept_report:
  assumes "located s" and "swept now s k t"
  shows "swept now (snd (reportTaskResult now' res s)) k t"
proof (cases "map_of (activeTasks s) (r_taskId res)")
  case None
  then show ?thesis using assms(2) by (simp add: reportTaskResult_def)
next
  case (Some task)
  let ?s' = "snd (reportTaskResult now' res s)"
  from Some have mem: "(r_taskId res, task) \<in> set (activeTasks s)" by (rule map_of_SomeD)
  then have "r_taskId res \<in> set (active_ids s)" by (force simp: active_ids_def)
  with assms(2) have ne: "r_taskId res \<noteq> k" by (auto simp: swept_def)
  from assms(1) mem have id: "t_id task = r_taskId res"
    by (auto simp: located_def shape_def active_assigned_def)
  have a: "k \<notin> set (active_ids ?s')"
    using assms(2) set_delete_subset [of "r_taskId res" "activeTasks s"]
    by (auto simp: swept_def active_ids_def report_activeTasks)
  have r: "getTaskResult ?s' k = getTaskResult s k"
    using Some ne by (simp add: getTaskResult_def report_taskResults update_conv')
  have q: "set (queue_ids ?s') \<subseteq> insert (r_taskId res) (set (queue_ids s))"
    using Some id by (auto simp: queue_ids_def report_taskQueue set_insertByPriority retryTask_def)
  show ?thesis
    using assms(2) a r q ne report_queue_mono [of s now' res] report_events_mono [of s now' res]
    unfolding swept_def by (auto split: if_splits)
qed

lemma swept_loop:
  assumes "located s" and "swept now s k t"
  shows "swept now (checkTimeouts_loop now es s) k t"
proof -
  let ?P = "\<lambda>s'. located s' \<and> swept now s' k t"
  have "?P (checkTimeouts_loop now es s)"
    by (rule checkTimeouts_loop_preserves [where P = ?P])
      (use assms located_report swept_report in auto)
  then show ?thesis by simp
qed

lemma located_map_of:
  assumes "located s" and "(k, t) \<in> set (activeTasks s)"
  shows "map_of (activeTasks s) k = Some t"
  using assms by (simp add: located_def exclusive_def active_ids_def map_of_is_SomeI)

lemma sweep_loop:
  assumes "located s" and "set es \<subseteq> set (activeTasks s)" and "distinct (map fst es)"
    and "(k, t) \<in> set es" and "timedOut now t"
  shows "swept now (checkTimeouts_loop now es s) k t"
  using assms
proof (induction es arbitrary: s)
  case Nil
  then show ?case by simp
next
  case (Cons e es)
  obtain k' t' where e: "e = (k', t')" by (cases e)
  from Cons.prems(2) have m': "map_of (activeTasks s) k' = Some t'"
    using located_map_of [OF Cons.prems(1)] by (simp add: e)
  let ?s1 = "snd (reportTaskResult now (timeoutResult now k' t') s)"
  have l1: "located ?s1" using located_report [OF Cons.prems(1)] by simp
  show ?case
  proof (cases "(k, t) = (k', t')")
    case True
    with Cons.prems(5) have "checkTimeouts_loop now (e # es) s = checkTimeouts_loop now es ?s1"
      by (simp add: e)
    moreover have "swept now ?s1 k t"
      using report_first [OF Cons.prems(1) m'] True by simp
    ultimately show ?thesis using swept_loop [OF l1] by simp
  next
    case False
    with Cons.prems(4) have in_es: "(k, t) \<in> set es" by (auto simp: e)
    from Cons.prems(3) have d: "distinct (map fst es)" and nk: "k' \<notin> fst ` set es"
      by (simp_all add: e)
    show ?thesis
    proof (cases "timedOut now t'")
      case True
      have "set es \<subseteq> set (activeTasks ?s1)"
      proof
        fix x assume x: "x \<in> set es"
        then have "fst x \<noteq> k'" using nk by force
        moreover from x Cons.prems(2) have "x \<in> set (activeTasks s)" by auto
        ultimately show "x \<in> set (activeTasks ?s1)"
          by (cases x) (auto simp: report_activeTasks timeoutResult_def in_set_delete)
      qed
      from Cons.IH [OF l1 this d in_es Cons.prems(5)] show ?thesis
        using True by (simp add: e)
    next
      case False
      from Cons.prems(2) have "set es \<subseteq> set (activeTasks s)" by simp
      from Cons.IH [OF Cons.prems(1) this d in_es Cons.prems(5)] show ?thesis
        using False by (simp add: e)
    qed
  qed
qed

lemma sweep_keeps:
  assumes "distinct (map fst (activeTasks s))" and "(k, t) \<in> set (activeTasks s)"
    and "\<not> timedOut now t" and "\<forall>(k', t') \<in> set es. (k', t') \<in> set (activeTasks s)"
  shows "(k, t) \<in> set (activeTasks (checkTimeouts_loop now es s'))
           \<longleftrightarrow> (k, t) \<in> set (activeTasks s')"
  using assms(4)
proof (induction es arbitrary: s')
  case Nil
  then show ?case by simp
next
  case (Cons e es)
  obtain k' t' where e: "e = (k', t')" by (cases e)
  show ?case
  proof (cases "timedOut now t'")
    case True
    from Cons.prems have "(k', t') \<in> set (activeTasks s)" by (simp add: e)
    with assms(1,2,3) True have "k' \<noteq> k"
      by (metis eq_key_imp_eq_value)
    then have "(k, t) \<in> set (activeTasks (snd (reportTaskResult now (timeoutResult now k' t') s')))
        \<longleftrightarrow> (k, t) \<in> set (activeTasks s')"
      by (auto simp: report_activeTasks timeoutResult_def in_set_delete)
    with Cons True show ?thesis by (simp add: e)
  next
    case False
    with Cons show ?thesis by (simp add: e)
  qed
qed


text \<open>Scenario 5: a timeout of 100 ms and no retries; T1 is assigned to W1 at time 2000.\<close>

definition scenario5_config :: OrchestratorConfig where
  "scenario5_config = DEFAULT_CONFIG\<lparr>defaultTaskTimeoutMs := 100, defaultMaxRetries := 0\<rparr>"

definition scenario5_assigned :: Orchestrator where
  "scenario5_assigned = run (newOrchestrator scenario5_config) assigned_ops"

definition scenario5_task :: Task where
  "scenario5_task = \<lparr>t_id = ''T1'', t_type = ''chat'', t_payload = ''hi'', t_priority = Normal,
     t_status = Assigned, t_createdAt = 1001, t_assignedTo = Some ''w1'',
     t_assignedAt = Some 2000, t_completedAt = None, t_result = None, t_error = None,
     t_retries = 0, t_maxRetries = 0, t_timeoutMs = 100\<rparr>"

text \<open>
  C5. In a state whose queue and active table are disjoint and without duplicates, let
  \<open>t\<close> be an active task with the assignment time \<open>a\<close> (a clock value, not 0). If
  \<open>now - a > timeoutMs\<close>, the sweep reports for it the failed result with the error "Task
  timed out" and \<open>durationMs = now - a\<close>: the task leaves the active table, the result is in
  the results table, and the task is back in the queue, pending, with one more retry,
  when \<open>retries < maxRetries\<close>; otherwise it is not queued again and the observers are told
  that it failed, its status being failed and its error "Task timed out". A task that has
  not timed out stays in the active table. The tick runs the sweep before it assigns.
\<close>

theorem timeout_sweep:
  assumes "located s" and "(k, t) \<in> set (activeTasks s)"
    and "t_assignedAt t = Some a" and "a \<noteq> 0"
  shows "(now - a > t_timeoutMs t \<longrightarrow>
           k \<notin> set (active_ids (checkTimeouts now s)) \<and>
           getTaskResult (checkTimeouts now s) k =
             Some \<lparr>r_taskId = k, r_workerId = orElse (t_assignedTo t) ''unknown'',
                    r_success = False, r_result = None, r_error = Some ''Task timed out'',
                    r_durationMs = now - a\<rparr> \<and>
           (of_int (t_retries t) < t_maxRetries t \<longrightarrow>
              retryTask t \<in> set (taskQueue (checkTimeouts now s)) \<and>
              t_retries (retryTask t) = t_retries t + 1 \<and>
              t_status (retryTask t) = Pending \<and> t_assignedTo (retryTask t) = None) \<and>
           (\<not> of_int (t_retries t) < t_maxRetries t \<longrightarrow>
              k \<notin> set (queue_ids (checkTimeouts now s)) \<and>
              TaskFailed (failTask now (timeoutResult now k t) t) ''Task timed out''
                \<in> set (events (checkTimeouts now s)) \<and>
              t_status (failTask now (timeoutResult now k t) t) = Failed \<and>
              t_error (failTask now (timeoutResult now k t) t) = Some ''Task timed out'')) \<and>
         (\<not> now - a > t_timeoutMs t \<longrightarrow> (k, t) \<in> set (activeTasks (checkTimeouts now s))) \<and>
         processQueue now rnd s =
           processQueue_loop now rnd 0
             (filter (\<lambda>t. t_status t = Pending) (taskQueue (checkTimeouts now s)))
             (checkTimeouts now s)"
proof -
  have res: "timeoutResult now k t =
      \<lparr>r_taskId = k, r_workerId = orElse (t_assignedTo t) ''unknown'',
       r_success = False, r_result = None, r_error = Some ''Task timed out'',
       r_durationMs = now - a\<rparr>"
    using assms(3) by (simp add: timeoutResult_def orElse_def)
  have d: "distinct (map fst (activeTasks s))"
    using assms(1) by (simp add: located_def exclusive_def active_ids_def)
  have out: "swept now (checkTimeouts now s) k t" if "now - a > t_timeoutMs t"
  proof -
    from that assms(3,4) have "timedOut now t" by (simp add: timedOut_def)
    with assms(1,2) d show ?thesis
      unfolding checkTimeouts_def by (intro sweep_loop) simp_all
  qed
  have keep: "(k, t) \<in> set (activeTasks (checkTimeouts now s))" if "\<not> now - a > t_timeoutMs t"
  proof -
    from that assms(3) have "\<not> timedOut now t" by (simp add: timedOut_def)
    from sweep_keeps [OF d assms(2) this, of "activeTasks s" s] assms(2)
    show ?thesis by (simp add: checkTimeouts_def)
  qed
  have fields: "t_retries (retryTask t) = t_retries t + 1" "t_status (retryTask t) = Pending"
    "t_assignedTo (retryTask t) = None"
    "t_status (failTask now (timeoutResult now k t) t) = Failed"
    "t_error (failTask now (timeoutResult now k t) t) = Some ''Task timed out''"
    by (simp_all add: retryTask_def failTask_def timeoutResult_def)
  have tick: "processQueue now rnd s =
           processQueue_loop now rnd 0
             (filter (\<lambda>t. t_status t = Pending) (taskQueue (checkTimeouts now s)))
             (checkTimeouts now s)"
    by (simp add: processQueue_def Let_def)
  show ?thesis
    using out keep fields tick unfolding swept_def res [symmetric]
    by (auto split: if_splits)
qed

theorem timeout_sweep_witness:
  "located scenario5_assigned \<and>
   (''T1'', scenario5_task) \<in> set (activeTasks scenario5_assigned) \<and>
   3000 - 2000 > t_timeoutMs scenario5_task \<and>
   ''T1'' \<notin> set (active_ids (checkTimeouts 3000 scenario5_assigned)) \<and>
   ''T1'' \<notin> set (queue_ids (checkTimeouts 3000 scenario5_assigned)) \<and>
   getTaskResult (checkTimeouts 3000 scenario5_assigned) ''T1'' =
     Some \<lparr>r_taskId = ''T1'', r_workerId = ''w1'', r_success = False, r_result = None,
            r_error = Some ''Task timed out'', r_durationMs = 1000\<rparr>"
proof -
  have l: "located scenario5_assigned"
    unfolding located_def shape_def queue_pending_def active_assigned_def exclusive_def
    by code_simp
  have m: "(''T1'', scenario5_task) \<in> set (activeTasks scenario5_assigned)"
    by code_simp
  have a: "t_assignedAt scenario5_task = Some 2000" "(2000::int) \<noteq> 0"
    "3000 - 2000 > t_timeoutMs scenario5_task"
    "\<not> of_int (t_retries scenario5_task) < t_maxRetries scenario5_task"
    "orElse (t_assignedTo scenario5_task) ''unknown'' = ''w1''"
    by (simp_all add: scenario5_task_def orElse_def)
  from timeout_sweep [OF l m a(1) a(2), of 3000 no_random] a(3,4,5)
  show ?thesis using l m by simp
qed


end
